theory Spec2Isabelle
  imports Main "HOL-Library.Word" "HOL-Library.Multiset" "HOL-Library.Char_ord"
    "HOL-Library.List_Lexorder"
begin

section \<open>The garbage collector of the local cache (gc.go)\<close>

text \<open>
  The development embeds \<^verbatim>\<open>gc.go\<close>: the LRU classifier \<^verbatim>\<open>chunkLRU\<close> with its methods,
  the two callbacks that \<^verbatim>\<open>gcOnce\<close> hands to \<^verbatim>\<open>filepath.Walk\<close>, the integrity check of
  the workers, and the deletion phase.  Metrics and log output are left out: no
  statement below is about them.
\<close>

subsection \<open>Errors\<close>

text \<open>
  A Go \<^verbatim>\<open>error\<close> is an interface value.  The values that matter here are the sentinel
  \<^verbatim>\<open>os.ErrNotExist\<close>, the \<^verbatim>\<open>*fs.PathError\<close> that \<^verbatim>\<open>os.Lstat\<close> and \<^verbatim>\<open>os.Open\<close> return (their
  documentation: "If there is an error, it will be of type *PathError"), \<^verbatim>\<open>io.EOF\<close>,
  errors made by \<^verbatim>\<open>errors.New\<close>, and errors wrapped by \<^verbatim>\<open>errors.WithMessagef\<close>.
  A run-time panic is an error value of the model as well.
  The Go comparison \<^verbatim>\<open>err == os.ErrNotExist\<close> is equality of interface values: it
  holds for the sentinel only, never for a \<^verbatim>\<open>*fs.PathError\<close> that wraps \<^verbatim>\<open>ENOENT\<close>.
\<close>

datatype errno = ENOENT | EACCES | EIO

datatype go_error =
    ErrNotExist
  | PathError string string errno
  | EOF
  | ErrorString string
  | WithMessage go_error string
  | RuntimePanic string

subsection \<open>Chunk statistics and the LRU classifier\<close>

text \<open>
  \<^verbatim>\<open>desync.ChunkID\<close> is \<^verbatim>\<open>[32]byte\<close>: a 256-bit word.  \<^verbatim>\<open>chunkStat.size\<close> is an
  \<^verbatim>\<open>int64\<close>; the classifier only reads it through \<^verbatim>\<open>uint64(stat.size)\<close>, which keeps
  the 64 bits, so the field is a 64-bit word and the additions and subtractions of
  \<^verbatim>\<open>liveSize\<close> and \<^verbatim>\<open>deadSize\<close> wrap around as in Go.  \<^verbatim>\<open>time.Time\<close> is an instant in
  nanoseconds.  The fields \<^verbatim>\<open>id\<close> and \<^verbatim>\<open>size\<close> are called \<open>cid\<close> and \<open>csize\<close>.
\<close>

type_synonym ChunkID = "256 word"

record chunkStat =
  cid :: ChunkID
  csize :: "64 word"
  mtime :: int

record chunkLRU =
  live :: "chunkStat list"
  liveSize :: "64 word"
  liveSizeMax :: "64 word"
  dead :: "ChunkID set"
  deadSize :: "64 word"

definition NewLRU :: "64 word \<Rightarrow> chunkLRU" where
  "NewLRU m = \<lparr>live = [], liveSize = 0, liveSizeMax = m, dead = {}, deadSize = 0\<rparr>"

definition AddDead :: "chunkLRU \<Rightarrow> chunkStat \<Rightarrow> chunkLRU" where
  "AddDead l stat = l\<lparr>dead := insert (cid stat) (dead l), deadSize := deadSize l + csize stat\<rparr>"

text \<open>
  \<^verbatim>\<open>sort.Search(n, f)\<close> of the Go library: binary search for the least index in
  \<open>[0, n)\<close> at which \<open>f\<close> holds, \<open>n\<close> when there is none.
\<close>

function Search_loop :: "(nat \<Rightarrow> bool) \<Rightarrow> nat \<Rightarrow> nat \<Rightarrow> nat" where
  "Search_loop f i j =
     (if i < j then
        (let h = (i + j) div 2 in
         if \<not> f h then Search_loop f (h + 1) j else Search_loop f i h)
      else i)"
  by pat_completeness auto
termination
  by (relation "measure (\<lambda>(f, i, j). j - i)") auto

declare Search_loop.simps [simp del]

definition Search :: "nat \<Rightarrow> (nat \<Rightarrow> bool) \<Rightarrow> nat" where
  "Search n f = Search_loop f 0 n"

text \<open>
  \<^verbatim>\<open>insertAt\<close>: \<^verbatim>\<open>append(l.live[:i+1], l.live[i:]...)\<close> followed by \<^verbatim>\<open>l.live[i] = v\<close>.
  The copy of \<^verbatim>\<open>append\<close> is a \<^verbatim>\<open>memmove\<close>, so the overlap of source and target in the
  same array does not change the result.
\<close>

definition insertAt :: "nat \<Rightarrow> chunkStat \<Rightarrow> chunkStat list \<Rightarrow> chunkStat list" where
  "insertAt i v xs =
     (if i = length xs then xs @ [v]
      else (take (i + 1) xs @ drop i xs)[i := v])"

text \<open>
  The eviction loop of \<^verbatim>\<open>Add\<close>.  \<^verbatim>\<open>l.live[len(l.live)-1]\<close> on an empty slice panics;
  the model returns the panic as an error.
\<close>

function evict :: "chunkLRU \<Rightarrow> go_error + chunkLRU" where
  "evict l =
     (if liveSize l > liveSizeMax l then
        (if live l = [] then Inl (RuntimePanic ''index out of range [-1]'')
         else
           (let die = last (live l) in
            evict (l\<lparr>dead := insert (cid die) (dead l),
                     live := butlast (live l),
                     deadSize := deadSize l + csize die,
                     liveSize := liveSize l - csize die\<rparr>)))
      else Inr l)"
  by pat_completeness auto
termination
  by (relation "measure (\<lambda>l. length (live l))") auto

declare evict.simps [simp del]

definition Add :: "chunkLRU \<Rightarrow> chunkStat \<Rightarrow> go_error + chunkLRU" where
  "Add l stat =
     (let isOlder = (\<lambda>i. mtime (live l ! i) < mtime stat);
          i = Search (length (live l)) isOlder;
          l1 = l\<lparr>live := insertAt i stat (live l)\<rparr>;
          l2 = l1\<lparr>liveSize := liveSize l1 + csize stat\<rparr>
      in evict l2)"

definition IsDead :: "chunkLRU \<Rightarrow> ChunkID \<Rightarrow> bool" where
  "IsDead l c = (c \<in> dead l)"

definition Dead :: "chunkLRU \<Rightarrow> ChunkID set" where
  "Dead l = dead l"

subsection \<open>Strings, paths and files\<close>

text \<open>
  \<^verbatim>\<open>strings.HasPrefix\<close> and \<^verbatim>\<open>filepath.Ext\<close> of the Go library.  \<^verbatim>\<open>Ext\<close> scans the path
  from its end and stops at the first path separator: the extension is the suffix
  that begins at the last dot of the last path element, empty when there is none.
\<close>

definition HasPrefix :: "string \<Rightarrow> string \<Rightarrow> bool" where
  "HasPrefix s prefix = (length prefix \<le> length s \<and> take (length prefix) s = prefix)"

fun Ext_loop :: "string \<Rightarrow> nat \<Rightarrow> string" where
  "Ext_loop p 0 = []"
| "Ext_loop p (Suc i) =
     (if p ! i = CHR ''/'' then []
      else if p ! i = CHR ''.'' then drop i p
      else Ext_loop p i)"

definition Ext :: "string \<Rightarrow> string" where
  "Ext p = Ext_loop p (length p)"

definition CompressedChunkExt :: string where
  "CompressedChunkExt = ''.cacnk''"

text \<open>
  \<^verbatim>\<open>fs.FileInfo\<close> as the callbacks read it, and one call of a \<^verbatim>\<open>filepath.WalkFunc\<close>:
  the path, the file information (\<open>None\<close> for \<^verbatim>\<open>nil\<close>) and the error (\<open>None\<close> for
  \<^verbatim>\<open>nil\<close>).  \<^verbatim>\<open>filepath.Walk\<close> calls the function once for every entry below the root,
  in lexical order, and stops at the first call that returns an error, which it
  returns; neither callback of this program returns \<^verbatim>\<open>filepath.SkipDir\<close>.
\<close>

record FileInfo =
  Name :: string
  IsDir :: bool
  Size :: "64 word"
  ModTime :: int

record walk_call =
  path :: string
  info :: "FileInfo option"
  err :: "go_error option"

fun Walk :: "(walk_call \<Rightarrow> 's \<Rightarrow> 'e + 's) \<Rightarrow> walk_call list \<Rightarrow> 's \<Rightarrow> 'e + 's" where
  "Walk fn [] s = Inr s"
| "Walk fn (c # cs) s = (case fn c s of Inl e \<Rightarrow> Inl e | Inr s' \<Rightarrow> Walk fn cs s')"

subsection \<open>Indices and the surroundings of a pass\<close>

text \<open>
  \<^verbatim>\<open>desync.Index\<close> with its chunk table; the field \<^verbatim>\<open>Size\<close> of \<^verbatim>\<open>desync.IndexChunk\<close> is
  called \<open>Length\<close> here.
\<close>

record IndexChunk =
  ID :: ChunkID
  Start :: "64 word"
  Length :: "64 word"

record Index =
  Chunks :: "IndexChunk list"

text \<open>
  What one pass of \<^verbatim>\<open>gcOnce\<close> reads from the proxy, the two stores, the clock and the
  Go run time:
  \<^item> \<open>CacheSize\<close>: \<^verbatim>\<open>proxy.CacheSize\<close>;
  \<^item> \<open>store_walk\<close>, \<open>indices_walk\<close>: the calls that \<^verbatim>\<open>filepath.Walk\<close> makes below
    \<^verbatim>\<open>store.Base\<close> and \<^verbatim>\<open>indices.Path\<close>;
  \<^item> \<open>ChunkIDFromString\<close>, \<open>GetChunk\<close>, \<open>GetIndex\<close>: the results of the desync
    functions of these names (\<open>None\<close> of \<open>GetChunk\<close> is the \<^verbatim>\<open>nil\<close> error);
  \<^item> \<open>narEntries\<close>: for an index, the error of \<^verbatim>\<open>nar.NewReader\<close> on the assembled
    stream, or the results of the successive calls of \<^verbatim>\<open>narRd.Next\<close> (\<open>None\<close> for an
    entry read without error; after the last listed result \<^verbatim>\<open>Next\<close> returns \<^verbatim>\<open>io.EOF\<close>);
  \<^item> \<open>assembleNarinfo\<close>: the error of the function of this name;
  \<^item> \<open>now\<close>: \<^verbatim>\<open>time.Now()\<close> at the start of the index walk;
  \<^item> \<open>worker_receives\<close>: for the path of an index, whether one of the three workers is
    still in its \<^verbatim>\<open>select\<close> to receive the \<^verbatim>\<open>integrityCheck\<close> that the index walk sends
    for it; a worker leaves after one second in which it has received nothing, so this
    depends on the timing of the pass;
  \<^item> \<open>range_order\<close>, \<open>dead_order\<close>: the order in which \<^verbatim>\<open>sync.Map.Range\<close> and the
    \<^verbatim>\<open>range\<close> over the map \<^verbatim>\<open>lru.Dead()\<close> visit the keys, which Go leaves open.
\<close>

record gc_env =
  CacheSize :: "64 word"
  store_walk :: "walk_call list"
  ChunkIDFromString :: "string \<Rightarrow> go_error + ChunkID"
  GetChunk :: "ChunkID \<Rightarrow> go_error option"
  indices_Path :: string
  indices_walk :: "walk_call list"
  GetIndex :: "string \<Rightarrow> go_error + Index"
  narEntries :: "Index \<Rightarrow> go_error + go_error option list"
  assembleNarinfo :: "Index \<Rightarrow> go_error option"
  now :: int
  worker_receives :: "string \<Rightarrow> bool"
  range_order :: "string set \<Rightarrow> string list"
  dead_order :: "ChunkID set \<Rightarrow> ChunkID list"

subsection \<open>The chunk walk\<close>

text \<open>The callback of the walk over \<^verbatim>\<open>store.Base\<close>.\<close>

definition walkStoreFn :: "gc_env \<Rightarrow> walk_call \<Rightarrow> chunkLRU \<Rightarrow> go_error + chunkLRU" where
  "walkStoreFn env c lru =
     (case err c of
        Some e \<Rightarrow> (if e = ErrNotExist then Inr lru else Inl e)
      | None \<Rightarrow>
         (case info c of
            None \<Rightarrow> Inl (RuntimePanic ''nil pointer dereference'')
          | Some fi \<Rightarrow>
              if IsDir fi then Inr lru
              else
                (let name = Name fi in
                 if HasPrefix name ''.tmp'' then Inr lru
                 else
                   (let ext = Ext name in
                    if ext \<noteq> CompressedChunkExt then Inr lru
                    else
                      (let idstr = take (length name - length ext) name in
                       case ChunkIDFromString env idstr of
                         Inl e \<Rightarrow> Inl e
                       | Inr i \<Rightarrow>
                           (let stat = \<lparr>cid = i, csize = Size fi, mtime = ModTime fi\<rparr> in
                            case GetChunk env i of
                              Some e \<Rightarrow> Inr (AddDead lru stat)
                            | None \<Rightarrow> Add lru stat))))))"

subsection \<open>The integrity workers\<close>

text \<open>
  \<^verbatim>\<open>checkNarContents\<close>: the loop over \<^verbatim>\<open>narRd.Next()\<close> with the flag \<^verbatim>\<open>none\<close>.
\<close>

fun checkNarLoop :: "go_error option list \<Rightarrow> bool \<Rightarrow> go_error + bool" where
  "checkNarLoop [] none = Inr none"
| "checkNarLoop (None # rs) none = checkNarLoop rs False"
| "checkNarLoop (Some e # rs) none = (if e = EOF then Inr none else Inl e)"

definition checkNarContents :: "gc_env \<Rightarrow> Index \<Rightarrow> go_error option" where
  "checkNarContents env idx =
     (case narEntries env idx of
        Inl e \<Rightarrow> Some e
      | Inr rs \<Rightarrow>
         (case checkNarLoop rs True of
            Inl e \<Rightarrow> Some e
          | Inr none \<Rightarrow> if none then Some (ErrorString ''no contents in NAR'') else None))"

text \<open>
  What a worker does with one \<^verbatim>\<open>integrityCheck\<close> it receives.  The workers are joined
  (\<^verbatim>\<open>wg.Wait()\<close>) before the deletion phase and \<^verbatim>\<open>deadIndices\<close> is a set, so the mark
  of a received check is made in the model at the moment of the submission.
\<close>

definition integrityWorker :: "gc_env \<Rightarrow> string \<Rightarrow> Index \<Rightarrow> string set \<Rightarrow> string set" where
  "integrityWorker env p idx deadIndices =
     (let ext = Ext p in
      if ext = ''.nar'' then
        (case checkNarContents env idx of
           Some e \<Rightarrow> insert p deadIndices
         | None \<Rightarrow> deadIndices)
      else if ext = ''.narinfo'' then
        (case assembleNarinfo env idx of
           Some e \<Rightarrow> insert p deadIndices
         | None \<Rightarrow> deadIndices)
      else deadIndices)"

subsection \<open>The index walk\<close>

text \<open>The loop over \<^verbatim>\<open>index.Chunks\<close> that stops at the first dead chunk.\<close>

fun someChunkDead :: "chunkLRU \<Rightarrow> IndexChunk list \<Rightarrow> bool" where
  "someChunkDead lru [] = False"
| "someChunkDead lru (indexChunk # rest) =
     (if IsDead lru (ID indexChunk) then True else someChunkDead lru rest)"

definition referentialCheck :: "chunkLRU \<Rightarrow> string \<Rightarrow> Index \<Rightarrow> string set \<Rightarrow> string set" where
  "referentialCheck lru p index deadIndices =
     (if length (Chunks index) = 0 then insert p deadIndices
      else if someChunkDead lru (Chunks index) then insert p deadIndices
      else deadIndices)"

definition Minute :: int where
  "Minute = 60 * 1000000000"

text \<open>
  The callback of the walk over \<^verbatim>\<open>indices.Path\<close>.  The slice \<^verbatim>\<open>path[len(indices.Path):]\<close>
  panics when the path is shorter than the root.  The channel \<^verbatim>\<open>integrity\<close> has no
  buffer: the send \<^verbatim>\<open>integrity <- integrityCheck{...}\<close> returns when a worker receives
  the check, and blocks forever when the three workers have left through the timeout
  case of their \<^verbatim>\<open>select\<close>.  Then the callback does not return, and neither do the walk
  and the pass.  So the index walk stops in one of two ways: the callback returns an
  error, or the send blocks.
\<close>

datatype walk_stop = Failed go_error | SendBlocks

definition walkIndicesFn ::
  "gc_env \<Rightarrow> chunkLRU \<Rightarrow> int \<Rightarrow> walk_call \<Rightarrow> string set \<Rightarrow> walk_stop + string set" where
  "walkIndicesFn env lru ignoreBeforeTime c deadIndices =
     (case err c of
        Some e \<Rightarrow> Inl (Failed e)
      | None \<Rightarrow>
         (case info c of
            None \<Rightarrow> Inl (Failed (RuntimePanic ''nil pointer dereference''))
          | Some fi \<Rightarrow>
              if IsDir fi then Inr deadIndices
              else
                (let isOld = ModTime fi < ignoreBeforeTime;
                     ext = Ext (path c);
                     isNar = (ext = ''.nar'');
                     isNarinfo = (ext = ''.narinfo'')
                 in
                 if \<not> (isNar \<or> isNarinfo \<or> isOld) then Inr deadIndices
                 else if length (path c) < length (indices_Path env)
                 then Inl (Failed (RuntimePanic ''slice bounds out of range''))
                 else
                   (let name = drop (length (indices_Path env)) (path c) in
                    case GetIndex env name of
                      Inl e \<Rightarrow> Inl (Failed (WithMessage e (''while getting index '' @ name)))
                    | Inr index \<Rightarrow>
                        if worker_receives env (path c) then
                          Inr (referentialCheck lru (path c) index
                                 (integrityWorker env (path c) index deadIndices))
                        else Inl SendBlocks))))"

subsection \<open>One pass\<close>

text \<open>
  The calls \<^verbatim>\<open>os.Remove(path)\<close> and \<^verbatim>\<open>store.RemoveChunk(id)\<close> that a pass makes, in
  the order it makes them, and what becomes of a pass: it returns after an error of
  the chunk walk, it returns after an error of the index walk, it never returns
  because a send of the index walk blocks, or it completes.  A completed pass carries
  the classifier, the set of dead indices and the deletions.  A panic ends the pass
  like a walk error: nothing has been deleted at that point.
\<close>

datatype fs_op = OsRemove string | RemoveChunk ChunkID

datatype pass_result =
    WalkStoreFailed go_error
  | WalkIndicesFailed go_error
  | NeverReturns
  | Completed chunkLRU "string set" "fs_op list"

definition maxCacheDirPortion :: "64 word" where
  "maxCacheDirPortion = 0xffff * 4096"

definition maxCacheSize :: "gc_env \<Rightarrow> 64 word" where
  "maxCacheSize env = 1073741824 * CacheSize env - maxCacheDirPortion"

definition gcOnce :: "gc_env \<Rightarrow> pass_result" where
  "gcOnce env =
     (case Walk (walkStoreFn env) (store_walk env) (NewLRU (maxCacheSize env)) of
        Inl walkStoreErr \<Rightarrow> WalkStoreFailed walkStoreErr
      | Inr lru \<Rightarrow>
         (let ignoreBeforeTime = now env + 10 * Minute in
          case Walk (walkIndicesFn env lru ignoreBeforeTime) (indices_walk env) {} of
            Inl (Failed walkIndicesErr) \<Rightarrow> WalkIndicesFailed walkIndicesErr
          | Inl SendBlocks \<Rightarrow> NeverReturns
          | Inr deadIndices \<Rightarrow>
              Completed lru deadIndices
                (map OsRemove (range_order env deadIndices) @
                 map RemoveChunk (dead_order env (Dead lru)))))"

fun deletions :: "pass_result \<Rightarrow> fs_op list" where
  "deletions (WalkStoreFailed e) = []"
| "deletions (WalkIndicesFailed e) = []"
| "deletions NeverReturns = []"
| "deletions (Completed lru deadIndices ops) = ops"

section \<open>Notions used in the statements\<close>

text \<open>
  The order of \<^verbatim>\<open>live\<close>: freshest first.  The sum of the sizes of a list of chunks, as
  the 64-bit sum the classifier computes and as a natural number.  The relation
  between \<^verbatim>\<open>liveSize\<close> and \<^verbatim>\<open>live\<close> that every method of the classifier keeps.
\<close>

definition mtime_desc :: "chunkStat list \<Rightarrow> bool" where
  "mtime_desc xs = sorted_wrt (\<lambda>a b. mtime b \<le> mtime a) xs"

definition sum_size :: "chunkStat list \<Rightarrow> 64 word" where
  "sum_size xs = sum_list (map csize xs)"

definition total_size :: "chunkStat list \<Rightarrow> nat" where
  "total_size xs = sum_list (map (\<lambda>c. unat (csize c)) xs)"

definition lru_inv :: "chunkLRU \<Rightarrow> bool" where
  "lru_inv l = (liveSize l = sum_size (live l) \<and> mtime_desc (live l))"

text \<open>
  The place of a new chunk in \<^verbatim>\<open>live\<close>: before the first chunk that is strictly older,
  hence after the chunks of the same mtime that are there already.
\<close>

definition place :: "chunkStat \<Rightarrow> chunkStat list \<Rightarrow> chunkStat list" where
  "place s xs =
     takeWhile (\<lambda>c. \<not> mtime c < mtime s) xs @ s # dropWhile (\<lambda>c. \<not> mtime c < mtime s) xs"

text \<open>
  The chunk walk offers a chunk to the classifier through \<^verbatim>\<open>Add\<close> or through
  \<^verbatim>\<open>AddDead\<close>; a sequence of such calls, stopped by the first panic.
\<close>

datatype offer = OfferAdd chunkStat | OfferDead chunkStat

fun offer_stat :: "offer \<Rightarrow> chunkStat" where
  "offer_stat (OfferAdd s) = s"
| "offer_stat (OfferDead s) = s"

fun classify :: "chunkLRU \<Rightarrow> offer \<Rightarrow> go_error + chunkLRU" where
  "classify l (OfferAdd s) = Add l s"
| "classify l (OfferDead s) = Inr (AddDead l s)"

fun offer_all :: "chunkLRU \<Rightarrow> offer list \<Rightarrow> go_error + chunkLRU" where
  "offer_all l [] = Inr l"
| "offer_all l (x # xs) = (case classify l x of Inl e \<Rightarrow> Inl e | Inr l' \<Rightarrow> offer_all l' xs)"

definition live_ids :: "chunkLRU \<Rightarrow> ChunkID set" where
  "live_ids l = cid ` set (live l)"

definition in_exactly_one :: "chunkLRU \<Rightarrow> ChunkID \<Rightarrow> bool" where
  "in_exactly_one l c = ((c \<in> live_ids l) \<noteq> (c \<in> dead l))"

text \<open>
  What the callback of the chunk walk does with one call: it returns an error, or it
  does nothing, or it makes one offer to the classifier.  \<open>store_offers\<close> lists the
  offers of a sequence of calls and \<open>store_ids\<close> the \<^verbatim>\<open>ChunkID\<close>s of the chunk files
  among them: the chunks that are on disk.
\<close>

definition walk_step :: "gc_env \<Rightarrow> walk_call \<Rightarrow> go_error + offer option" where
  "walk_step env c =
     (case err c of
        Some e \<Rightarrow> (if e = ErrNotExist then Inr None else Inl e)
      | None \<Rightarrow>
         (case info c of
            None \<Rightarrow> Inl (RuntimePanic ''nil pointer dereference'')
          | Some fi \<Rightarrow>
              if IsDir fi then Inr None
              else if HasPrefix (Name fi) ''.tmp'' then Inr None
              else if Ext (Name fi) \<noteq> CompressedChunkExt then Inr None
              else
                (case ChunkIDFromString env (take (length (Name fi) - length (Ext (Name fi))) (Name fi)) of
                   Inl e \<Rightarrow> Inl e
                 | Inr i \<Rightarrow>
                     (case GetChunk env i of
                        Some e \<Rightarrow> Inr (Some (OfferDead \<lparr>cid = i, csize = Size fi, mtime = ModTime fi\<rparr>))
                      | None \<Rightarrow> Inr (Some (OfferAdd \<lparr>cid = i, csize = Size fi, mtime = ModTime fi\<rparr>))))))"

definition walk_offer :: "gc_env \<Rightarrow> walk_call \<Rightarrow> offer option" where
  "walk_offer env c = (case walk_step env c of Inl e \<Rightarrow> None | Inr x \<Rightarrow> x)"

definition store_offers :: "gc_env \<Rightarrow> walk_call list \<Rightarrow> offer list" where
  "store_offers env cs = List.map_filter (walk_offer env) cs"

definition store_ids :: "gc_env \<Rightarrow> walk_call list \<Rightarrow> ChunkID set" where
  "store_ids env cs = set (map (\<lambda>x. cid (offer_stat x)) (store_offers env cs))"

text \<open>
  A file of the chunk store that is in flight: a call without error for a file that is
  no directory and whose name begins with \<^verbatim>\<open>.tmp\<close>.
\<close>

definition tmp_file :: "walk_call \<Rightarrow> bool" where
  "tmp_file c =
     (case err c of
        Some e \<Rightarrow> False
      | None \<Rightarrow>
         (case info c of
            None \<Rightarrow> False
          | Some fi \<Rightarrow> (if IsDir fi then False else HasPrefix (Name fi) ''.tmp'')))"

text \<open>
  The index that the callback of the index walk loads for one call, with the clock of
  the pass: \<open>None\<close> for a call with an error, a directory, a file that the age filter
  skips, and a file that \<^verbatim>\<open>GetIndex\<close> cannot load.
\<close>

definition loaded_index :: "gc_env \<Rightarrow> walk_call \<Rightarrow> Index option" where
  "loaded_index env c =
     (case err c of
        Some e \<Rightarrow> None
      | None \<Rightarrow>
         (case info c of
            None \<Rightarrow> None
          | Some fi \<Rightarrow>
              if IsDir fi then None
              else if Ext (path c) = ''.nar'' \<or> Ext (path c) = ''.narinfo''
                      \<or> ModTime fi < now env + 10 * Minute
              then
                (if length (path c) < length (indices_Path env) then None
                 else
                   (case GetIndex env (drop (length (indices_Path env)) (path c)) of
                      Inl e \<Rightarrow> None
                    | Inr index \<Rightarrow> Some index))
              else None))"

text \<open>
  \<^verbatim>\<open>desync.ChunkIDFromString\<close>, used in the examples: \<^verbatim>\<open>hex.DecodeString\<close> followed by
  the check that there are 32 bytes, which are the \<^verbatim>\<open>ChunkID\<close>.
\<close>

definition fromHexChar :: "char \<Rightarrow> nat option" where
  "fromHexChar c =
     (let n = (of_char c :: nat) in
      if 48 \<le> n \<and> n \<le> 57 then Some (n - 48)
      else if 97 \<le> n \<and> n \<le> 102 then Some (n - 87)
      else if 65 \<le> n \<and> n \<le> 70 then Some (n - 55)
      else None)"

fun DecodeString :: "string \<Rightarrow> nat list option" where
  "DecodeString [] = Some []"
| "DecodeString [a] = None"
| "DecodeString (a # b # rest) =
     (case fromHexChar a of
        None \<Rightarrow> None
      | Some x \<Rightarrow>
         (case fromHexChar b of
            None \<Rightarrow> None
          | Some y \<Rightarrow>
             (case DecodeString rest of
                None \<Rightarrow> None
              | Some bs \<Rightarrow> Some ((16 * x + y) # bs))))"

definition hexChunkID :: "string \<Rightarrow> go_error + ChunkID" where
  "hexChunkID s =
     (case DecodeString s of
        None \<Rightarrow> Inl (ErrorString ''failed to decode chunk id string'')
      | Some bs \<Rightarrow>
          if length bs \<noteq> 32 then Inl (ErrorString ''chunk id string not of right size'')
          else Inr (of_nat (foldl (\<lambda>a b. 256 * a + b) 0 bs)))"

text \<open>
  A store for the examples: the chunk store holds no file, the index store holds no
  file, every chunk can be read, every index that is asked for has one chunk with the
  id 7, every archive has one entry, the clock shows 1000 minutes, a worker receives
  every check, and the run time visits the keys of a map in ascending order.  The examples change the fields they
  are about.
\<close>

definition example_env :: gc_env where
  "example_env =
     \<lparr>CacheSize = 1,
      store_walk = [],
      ChunkIDFromString = hexChunkID,
      GetChunk = (\<lambda>i. None),
      indices_Path = ''/idx'',
      indices_walk = [],
      GetIndex = (\<lambda>name. Inr \<lparr>Chunks = [\<lparr>ID = 7, Start = 0, Length = 1\<rparr>]\<rparr>),
      narEntries = (\<lambda>index. Inr [None]),
      assembleNarinfo = (\<lambda>index. None),
      now = 1000 * Minute,
      worker_receives = (\<lambda>p. True),
      range_order = sorted_list_of_set,
      dead_order = sorted_list_of_set\<rparr>"

definition regular_file :: "string \<Rightarrow> string \<Rightarrow> 64 word \<Rightarrow> int \<Rightarrow> walk_call" where
  "regular_file p n sz t =
     \<lparr>path = p, info = Some \<lparr>Name = n, IsDir = False, Size = sz, ModTime = t\<rparr>, err = None\<rparr>"

text \<open>
  The run time visits every key of a map: the keys that \<^verbatim>\<open>sync.Map.Range\<close> and the
  \<^verbatim>\<open>range\<close> over a map pass to the loop body are the keys of the map.
\<close>

definition visits_all_keys :: "gc_env \<Rightarrow> bool" where
  "visits_all_keys env =
     ((\<forall>S. finite S \<longrightarrow> set (range_order env S) = S) \<and>
      (\<forall>S. finite S \<longrightarrow> set (dead_order env S) = S))"

text \<open>
  Modelled from the spec: the effect of the deletions on the two stores, which is not
  part of \<^verbatim>\<open>gc.go\<close> (the contract of the chunk store: \<^verbatim>\<open>remove_chunk(id)\<close> deletes the
  chunk file of the id, of which the layout of the store has one; \<^verbatim>\<open>os.Remove(path)\<close>
  deletes the index file).  \<open>after_pass env ops t\<close> is the store after the deletions
  \<open>ops\<close> of a pass, when all of them succeed and nothing else writes to the store, at
  the time \<open>t\<close> of the next pass: the removed index files are no longer walked, the
  removed chunk files are no longer walked, and \<^verbatim>\<open>GetChunk\<close> no longer finds the removed
  chunks.
\<close>

definition after_pass :: "gc_env \<Rightarrow> fs_op list \<Rightarrow> int \<Rightarrow> gc_env" where
  "after_pass env ops t =
     env\<lparr>store_walk :=
           filter (\<lambda>c. case walk_offer env c of
                          None \<Rightarrow> True
                        | Some x \<Rightarrow> RemoveChunk (cid (offer_stat x)) \<notin> set ops)
             (store_walk env),
         GetChunk :=
           (\<lambda>i. if RemoveChunk i \<in> set ops then Some (ErrorString ''chunk missing'')
                else GetChunk env i),
         indices_walk := filter (\<lambda>c. OsRemove (path c) \<notin> set ops) (indices_walk env),
         now := t\<rparr>"

section \<open>The classifier\<close>

subsection \<open>Binary search and insertion\<close>

lemma Search_loop_least:
  assumes mono: "\<And>a b. a \<le> b \<Longrightarrow> b < n \<Longrightarrow> f a \<Longrightarrow> f b"
  shows "i \<le> j \<Longrightarrow> j \<le> n \<Longrightarrow> (\<forall>k<i. \<not> f k) \<Longrightarrow> (\<forall>k. j \<le> k \<and> k < n \<longrightarrow> f k)
     \<Longrightarrow> Search_loop f i j \<le> n \<and> (\<forall>k<Search_loop f i j. \<not> f k)
         \<and> (\<forall>k. Search_loop f i j \<le> k \<and> k < n \<longrightarrow> f k)"
proof (induction "j - i" arbitrary: i j rule: less_induct)
  case less
  show ?case
  proof (cases "i < j")
    case False
    then have "Search_loop f i j = i" by (subst Search_loop.simps) simp
    with less.prems False show ?thesis by simp
  next
    case True
    define h where "h = (i + j) div 2"
    have hb: "i \<le> h" "h < j" using True by (auto simp: h_def)
    show ?thesis
    proof (cases "f h")
      case fh: True
      have up: "\<forall>k. h \<le> k \<and> k < n \<longrightarrow> f k" using fh mono by blast
      have eq: "Search_loop f i j = Search_loop f i h"
        using True fh by (subst Search_loop.simps) (simp add: h_def Let_def)
      have "h - i < j - i" using hb by simp
      from less.hyps[OF this hb(1) _ less.prems(3) up] hb less.prems(2)
      show ?thesis unfolding eq by simp
    next
      case nfh: False
      have lo: "\<forall>k<h + 1. \<not> f k"
      proof (intro allI impI)
        fix k assume "k < h + 1"
        then have "k \<le> h" by simp
        moreover have "h < n" using hb less.prems(2) by simp
        ultimately show "\<not> f k" using mono nfh by blast
      qed
      have eq: "Search_loop f i j = Search_loop f (h + 1) j"
        using True nfh by (subst Search_loop.simps) (simp add: h_def Let_def)
      have "j - (h + 1) < j - i" using hb by simp
      from less.hyps[OF this _ less.prems(2) lo less.prems(4)] hb
      show ?thesis unfolding eq by simp
    qed
  qed
qed

lemma Search_least:
  assumes mono: "\<And>a b. a \<le> b \<Longrightarrow> b < n \<Longrightarrow> f a \<Longrightarrow> f b"
  shows "Search n f \<le> n \<and> (\<forall>k<Search n f. \<not> f k) \<and> (\<forall>k. Search n f \<le> k \<and> k < n \<longrightarrow> f k)"
  unfolding Search_def
proof (rule Search_loop_least)
  show "\<And>a b. a \<le> b \<Longrightarrow> b < n \<Longrightarrow> f a \<Longrightarrow> f b" by (rule mono)
  show "0 \<le> n" by simp
  show "n \<le> n" by simp
  show "\<forall>k<0. \<not> f k" by simp
  show "\<forall>k. n \<le> k \<and> k < n \<longrightarrow> f k" using not_le by blast
qed

lemma takeWhile_index:
  assumes "r \<le> length xs" "\<forall>k<r. P (xs ! k)" "\<forall>k. r \<le> k \<and> k < length xs \<longrightarrow> \<not> P (xs ! k)"
  shows "takeWhile P xs = take r xs"
proof -
  have "\<And>x. x \<in> set (take r xs) \<Longrightarrow> P x"
    using assms(1,2) by (auto simp: in_set_conv_nth)
  then have a: "takeWhile P (take r xs @ drop r xs) = take r xs @ takeWhile P (drop r xs)"
    by (rule takeWhile_append2)
  have b: "takeWhile P (drop r xs) = []"
  proof (cases "r < length xs")
    case True
    then have "drop r xs = xs ! r # drop (Suc r) xs" by (simp add: Cons_nth_drop_Suc)
    moreover have "\<not> P (xs ! r)" using True assms(3) by simp
    ultimately show ?thesis by simp
  next
    case False then show ?thesis by simp
  qed
  have "takeWhile P xs = takeWhile P (take r xs @ drop r xs)" by simp
  also have "\<dots> = take r xs" unfolding a b by simp
  finally show ?thesis .
qed

lemma Search_mtime:
  assumes "mtime_desc xs"
  shows "Search (length xs) (\<lambda>i. mtime (xs ! i) < t) = length (takeWhile (\<lambda>c. \<not> mtime c < t) xs)"
proof -
  define f where "f = (\<lambda>i. mtime (xs ! i) < t)"
  define r where "r = Search (length xs) f"
  have mono: "\<And>a b. a \<le> b \<Longrightarrow> b < length xs \<Longrightarrow> f a \<Longrightarrow> f b"
  proof -
    fix a b assume ab: "a \<le> b" "b < length xs" "f a"
    show "f b"
    proof (cases "a = b")
      case True with ab show ?thesis by simp
    next
      case False
      with ab have "a < b" by simp
      with assms ab(2) have "mtime (xs ! b) \<le> mtime (xs ! a)"
        by (simp add: mtime_desc_def sorted_wrt_iff_nth_less)
      with ab(3) show ?thesis by (simp add: f_def)
    qed
  qed
  have s: "r \<le> length xs \<and> (\<forall>k<r. \<not> f k) \<and> (\<forall>k. r \<le> k \<and> k < length xs \<longrightarrow> f k)"
    unfolding r_def by (rule Search_least) (rule mono)
  have "takeWhile (\<lambda>c. \<not> mtime c < t) xs = take r xs"
  proof (rule takeWhile_index)
    show "r \<le> length xs" using s by blast
    show "\<forall>k<r. \<not> mtime (xs ! k) < t" using s unfolding f_def by blast
    show "\<forall>k. r \<le> k \<and> k < length xs \<longrightarrow> \<not> \<not> mtime (xs ! k) < t" using s unfolding f_def by blast
  qed
  then have "length (takeWhile (\<lambda>c. \<not> mtime c < t) xs) = r" using s by simp
  then show ?thesis by (simp add: r_def f_def)
qed

lemma insertAt_eq: "i \<le> length xs \<Longrightarrow> insertAt i v xs = take i xs @ v # drop i xs"
proof (cases "i = length xs")
  case True then show ?thesis by (simp add: insertAt_def)
next
  case False
  assume "i \<le> length xs"
  with False have lt: "i < length xs" by simp
  have t: "take (Suc i) xs = take i xs @ [xs ! i]"
    using lt by (rule take_Suc_conv_app_nth)
  have len: "length (take i xs) = i" using lt by simp
  have "(take (Suc i) xs @ drop i xs)[i := v] = (take i xs @ (xs ! i # drop i xs))[i := v]"
    unfolding t by simp
  also have "\<dots> = take i xs @ (xs ! i # drop i xs)[i - i := v]"
    unfolding list_update_append len by simp
  also have "\<dots> = take i xs @ v # drop i xs" by simp
  finally show ?thesis using False by (simp add: insertAt_def)
qed

lemma insertAt_Search_place:
  assumes "mtime_desc xs"
  shows "insertAt (Search (length xs) (\<lambda>i. mtime (xs ! i) < mtime s)) s xs = place s xs"
proof -
  let ?P = "\<lambda>c. \<not> mtime c < mtime s"
  have r: "Search (length xs) (\<lambda>i. mtime (xs ! i) < mtime s) = length (takeWhile ?P xs)"
    using assms by (rule Search_mtime)
  have le: "length (takeWhile ?P xs) \<le> length xs" by (rule length_takeWhile_le)
  have "insertAt (length (takeWhile ?P xs)) s xs
      = take (length (takeWhile ?P xs)) xs @ s # drop (length (takeWhile ?P xs)) xs"
    using le by (rule insertAt_eq)
  also have "\<dots> = place s xs"
    by (simp add: place_def takeWhile_eq_take[symmetric] dropWhile_eq_drop[symmetric])
  finally show ?thesis unfolding r .
qed

lemma place_Cons:
  "place s (x # xs) = (if mtime x < mtime s then s # x # xs else x # place s xs)"
  by (simp add: place_def)

lemma set_place: "set (place s xs) = insert s (set xs)"
proof -
  have "set (place s xs) = insert s (set (takeWhile (\<lambda>c. \<not> mtime c < mtime s) xs @
      dropWhile (\<lambda>c. \<not> mtime c < mtime s) xs))"
    unfolding place_def by (simp only: set_append set_simps) blast
  then show ?thesis by simp
qed

lemma mset_place: "mset (place s xs) = add_mset s (mset xs)"
proof -
  have "mset (place s xs) = add_mset s (mset (takeWhile (\<lambda>c. \<not> mtime c < mtime s) xs @
      dropWhile (\<lambda>c. \<not> mtime c < mtime s) xs))"
    unfolding place_def by (simp only: mset_append mset.simps) simp
  then show ?thesis by simp
qed

lemma length_place: "length (place s xs) = length xs + 1"
  using arg_cong[OF mset_place[of s xs], of size] by simp

lemma mtime_desc_place: "mtime_desc xs \<Longrightarrow> mtime_desc (place s xs)"
proof (induction xs)
  case Nil
  then show ?case by (simp add: place_def mtime_desc_def)
next
  case (Cons x xs)
  have tl: "mtime_desc xs" and hd: "\<forall>y\<in>set xs. mtime y \<le> mtime x"
    using Cons.prems by (simp_all add: mtime_desc_def)
  show ?case
  proof (cases "mtime x < mtime s")
    case True
    then have "\<forall>y\<in>set (x # xs). mtime y \<le> mtime s" using hd by fastforce
    then show ?thesis
      using True Cons.prems unfolding place_Cons mtime_desc_def by simp
  next
    case False
    have "mtime_desc (place s xs)" using tl by (rule Cons.IH)
    moreover have "\<forall>y\<in>set (place s xs). mtime y \<le> mtime x"
      using hd False unfolding set_place by simp
    ultimately show ?thesis
      using False unfolding place_Cons mtime_desc_def by simp
  qed
qed

lemma mtime_desc_take: "mtime_desc xs \<Longrightarrow> mtime_desc (take n xs)"
  unfolding mtime_desc_def by (rule sorted_wrt_take)

subsection \<open>The eviction loop\<close>

lemma sum_size_butlast:
  "xs \<noteq> [] \<Longrightarrow> sum_size (butlast xs) = sum_size xs - csize (last xs)"
proof -
  assume "xs \<noteq> []"
  then have "xs = butlast xs @ [last xs]" by simp
  then have "sum_size xs = sum_size (butlast xs @ [last xs])" by simp
  also have "\<dots> = sum_size (butlast xs) + csize (last xs)"
    by (simp add: sum_size_def)
  finally show ?thesis by simp
qed

lemma evict_spec:
  "lru_inv l \<Longrightarrow>
   \<exists>k l'. evict l = Inr l' \<and> k \<le> length (live l)
     \<and> live l' = take (length (live l) - k) (live l)
     \<and> dead l' = dead l \<union> cid ` set (drop (length (live l) - k) (live l))
     \<and> liveSizeMax l' = liveSizeMax l
     \<and> lru_inv l'
     \<and> liveSize l' \<le> liveSizeMax l'
     \<and> deadSize l' = deadSize l + sum_size (drop (length (live l) - k) (live l))
     \<and> (\<forall>j<k. liveSizeMax l < sum_size (take (length (live l) - j) (live l)))"
proof (induction l rule: evict.induct)
  case (1 l)
  show ?case
  proof (cases "liveSize l > liveSizeMax l")
    case False
    then have "evict l = Inr l" by (subst evict.simps) simp
    with False 1(2) show ?thesis
      by (intro exI[of _ 0] exI[of _ l]) (simp add: sum_size_def)
  next
    case True
    have ne: "live l \<noteq> []"
    proof
      assume "live l = []"
      with 1(2) have "liveSize l = 0" by (simp add: lru_inv_def sum_size_def)
      with True show False by simp
    qed
    define die where "die = last (live l)"
    define l1 where "l1 = l\<lparr>dead := insert (cid die) (dead l), live := butlast (live l),
        deadSize := deadSize l + csize die, liveSize := liveSize l - csize die\<rparr>"
    have ev: "evict l = evict l1"
      using True ne by (subst evict.simps) (simp add: l1_def die_def Let_def)
    have "mtime_desc (butlast (live l))"
      using 1(2) unfolding butlast_conv_take lru_inv_def by (simp add: mtime_desc_take)
    then have inv1: "lru_inv l1"
      using 1(2) ne by (simp add: lru_inv_def l1_def die_def sum_size_butlast)
    from 1(1)[OF True ne die_def[symmetric, THEN sym] inv1[unfolded l1_def]]
    obtain k l' where IH:
      "evict l1 = Inr l'" "k \<le> length (live l1)"
      "live l' = take (length (live l1) - k) (live l1)"
      "dead l' = dead l1 \<union> cid ` set (drop (length (live l1) - k) (live l1))"
      "liveSizeMax l' = liveSizeMax l1" "lru_inv l'" "liveSize l' \<le> liveSizeMax l'"
      "deadSize l' = deadSize l1 + sum_size (drop (length (live l1) - k) (live l1))"
      "\<forall>j<k. liveSizeMax l1 < sum_size (take (length (live l1) - j) (live l1))"
      unfolding l1_def[symmetric] by blast
    let ?n = "length (live l)"
    have len1: "length (live l1) = ?n - 1" by (simp add: l1_def)
    have npos: "0 < ?n" using ne by simp
    have tk: "\<And>j. take (?n - 1 - j) (live l1) = take (?n - Suc j) (live l)"
    proof -
      fix j
      have "?n - Suc j < ?n" using npos by simp
      then have "take (?n - Suc j) (butlast (live l)) = take (?n - Suc j) (live l)"
        by (rule take_butlast)
      then show "take (?n - 1 - j) (live l1) = take (?n - Suc j) (live l)"
        by (simp add: l1_def)
    qed
    have dr: "\<And>j. j \<le> ?n - 1 \<Longrightarrow> drop (?n - Suc j) (live l) = drop (?n - 1 - j) (live l1) @ [die]"
    proof -
      fix j assume "j \<le> ?n - 1"
      have "live l = butlast (live l) @ [die]" using ne by (simp add: die_def)
      then have "drop (?n - Suc j) (live l) = drop (?n - Suc j) (butlast (live l) @ [die])" by simp
      also have "\<dots> = drop (?n - Suc j) (butlast (live l)) @ [die]"
        using npos by simp
      finally show "drop (?n - Suc j) (live l) = drop (?n - 1 - j) (live l1) @ [die]"
        by (simp add: l1_def)
    qed
    have k1: "Suc k \<le> ?n" using IH(2) len1 npos by linarith
    have "\<forall>j<Suc k. liveSizeMax l < sum_size (take (?n - j) (live l))"
    proof (intro allI impI)
      fix j assume j: "j < Suc k"
      show "liveSizeMax l < sum_size (take (?n - j) (live l))"
      proof (cases j)
        case 0
        then show ?thesis using True 1(2) by (simp add: lru_inv_def)
      next
        case (Suc j')
        then have "j' < k" using j by simp
        with IH(9) have "liveSizeMax l1 < sum_size (take (length (live l1) - j') (live l1))" by blast
        then show ?thesis unfolding len1 tk Suc by (simp add: l1_def)
      qed
    qed
    moreover have "dead l' = dead l \<union> cid ` set (drop (?n - Suc k) (live l))"
      using IH(4) dr[of k] IH(2) unfolding len1 by (auto simp: l1_def)
    moreover have "deadSize l' = deadSize l + sum_size (drop (?n - Suc k) (live l))"
      using IH(8) dr[of k] IH(2) unfolding len1 by (simp add: l1_def sum_size_def)
    moreover have "live l' = take (?n - Suc k) (live l)"
      using IH(3) unfolding len1 tk .
    moreover have "liveSizeMax l' = liveSizeMax l" using IH(5) by (simp add: l1_def)
    ultimately show ?thesis
      using ev IH(1,6,7) k1 by (intro exI[of _ "Suc k"] exI[of _ l']) simp
  qed
qed

lemma Add_spec:
  assumes "lru_inv l"
  shows "\<exists>k l'. Add l s = Inr l' \<and> k \<le> length (live l) + 1
     \<and> live l' = take (length (live l) + 1 - k) (place s (live l))
     \<and> dead l' = dead l \<union> cid ` set (drop (length (live l) + 1 - k) (place s (live l)))
     \<and> liveSizeMax l' = liveSizeMax l
     \<and> lru_inv l'
     \<and> liveSize l' \<le> liveSizeMax l'
     \<and> deadSize l' = deadSize l + sum_size (drop (length (live l) + 1 - k) (place s (live l)))
     \<and> (\<forall>j<k. liveSizeMax l < sum_size (take (length (live l) + 1 - j) (place s (live l))))"
proof -
  define l2 where "l2 = l\<lparr>live := place s (live l), liveSize := liveSize l + csize s\<rparr>"
  have d: "mtime_desc (live l)" and sz: "liveSize l = sum_size (live l)"
    using assms by (simp_all add: lru_inv_def)
  have add: "Add l s = evict l2"
    unfolding Add_def Let_def insertAt_Search_place[OF d] l2_def by simp
  have "sum_size (place s (live l)) = sum_size (live l) + csize s"
    using arg_cong[OF mset_place[of s "live l"], of "\<lambda>m. sum_mset (image_mset csize m)"]
    by (simp add: sum_size_def sum_mset_sum_list[symmetric] del: sum_mset_sum_list)
  then have inv2: "lru_inv l2"
    using d sz by (simp add: lru_inv_def l2_def mtime_desc_place)
  have len: "length (live l2) = length (live l) + 1" by (simp add: l2_def length_place)
  from evict_spec[OF inv2] show ?thesis
    unfolding add len by (simp add: l2_def)
qed

lemma Add_fits:
  assumes inv: "lru_inv l" and fit: "unat (liveSize l) + unat (csize s) \<le> unat (liveSizeMax l)"
  shows "Add l s = Inr (l\<lparr>live := place s (live l), liveSize := liveSize l + csize s\<rparr>)"
proof -
  define l2 where "l2 = l\<lparr>live := place s (live l), liveSize := liveSize l + csize s\<rparr>"
  have d: "mtime_desc (live l)" using inv by (simp add: lru_inv_def)
  have add: "Add l s = evict l2"
    unfolding Add_def Let_def insertAt_Search_place[OF d] l2_def by simp
  have "unat (liveSizeMax l) < 2 ^ 64" using unsigned_less[of "liveSizeMax l"] by simp
  then have "unat (liveSize l) + unat (csize s) < 2 ^ LENGTH(64)" using fit by simp
  then have "unat (liveSize l + csize s) = unat (liveSize l) + unat (csize s)"
    by (rule unat_add_lem[THEN iffD1])
  then have "liveSize l + csize s \<le> liveSizeMax l"
    using fit by (simp add: word_le_nat_alt)
  then have "\<not> liveSizeMax l2 < liveSize l2" by (simp add: l2_def not_less)
  then have "evict l2 = Inr l2" by (subst evict.simps) simp
  then show ?thesis unfolding add l2_def .
qed

lemma sum_size_place: "sum_size (place s xs) = sum_size xs + csize s"
  using arg_cong[OF mset_place[of s xs], of "\<lambda>m. sum_mset (image_mset csize m)"]
  by (simp add: sum_size_def sum_mset_sum_list[symmetric] del: sum_mset_sum_list)

lemma offer_all_Add_fits:
  "lru_inv l \<Longrightarrow> unat (liveSize l) + total_size stats \<le> unat (liveSizeMax l) \<Longrightarrow>
   \<exists>l'. offer_all l (map OfferAdd stats) = Inr l' \<and> dead l' = dead l
      \<and> mset (live l') = mset (live l) + mset stats
      \<and> unat (liveSize l') = unat (liveSize l) + total_size stats
      \<and> lru_inv l' \<and> liveSizeMax l' = liveSizeMax l \<and> deadSize l' = deadSize l"
proof (induction stats arbitrary: l)
  case Nil
  then show ?case by (simp add: total_size_def)
next
  case (Cons s stats)
  define l2 where "l2 = l\<lparr>live := place s (live l), liveSize := liveSize l + csize s\<rparr>"
  have fit1: "unat (liveSize l) + unat (csize s) \<le> unat (liveSizeMax l)"
    using Cons.prems(2) by (simp add: total_size_def)
  have step: "Add l s = Inr l2" unfolding l2_def using Cons.prems(1) fit1 by (rule Add_fits)
  have "unat (liveSizeMax l) < 2 ^ 64" using unsigned_less[of "liveSizeMax l"] by simp
  then have "unat (liveSize l) + unat (csize s) < 2 ^ LENGTH(64)" using fit1 by simp
  then have "unat (liveSize l + csize s) = unat (liveSize l) + unat (csize s)"
    by (rule unat_add_lem[THEN iffD1])
  then have u: "unat (liveSize l2) = unat (liveSize l) + unat (csize s)"
    by (simp add: l2_def)
  have inv2: "lru_inv l2"
    using Cons.prems(1) by (simp add: lru_inv_def l2_def mtime_desc_place sum_size_place)
  have fit2: "unat (liveSize l2) + total_size stats \<le> unat (liveSizeMax l2)"
    using Cons.prems(2) u by (simp add: total_size_def l2_def)
  from Cons.IH[OF inv2 fit2] obtain l' where r:
    "offer_all l2 (map OfferAdd stats) = Inr l'" "dead l' = dead l2"
    "mset (live l') = mset (live l2) + mset stats"
    "unat (liveSize l') = unat (liveSize l2) + total_size stats"
    "lru_inv l'" "liveSizeMax l' = liveSizeMax l2" "deadSize l' = deadSize l2" by blast
  have "offer_all l (map OfferAdd (s # stats)) = Inr l'" using step r(1) by simp
  moreover have "mset (live l') = mset (live l) + mset (s # stats)"
    using r(3) by (simp add: l2_def mset_place)
  moreover have "unat (liveSize l') = unat (liveSize l) + total_size (s # stats)"
    using r(4) u by (simp add: total_size_def)
  ultimately show ?case using r(2,5,6,7) by (simp add: l2_def)
qed

lemma classify_step:
  assumes inv: "lru_inv l"
  shows "\<exists>l'. classify l x = Inr l' \<and> lru_inv l' \<and> liveSizeMax l' = liveSizeMax l
     \<and> (liveSize l \<le> liveSizeMax l \<longrightarrow> liveSize l' \<le> liveSizeMax l')
     \<and> live_ids l' \<union> dead l' = insert (cid (offer_stat x)) (live_ids l \<union> dead l)
     \<and> dead l \<subseteq> dead l'
     \<and> (distinct (map cid (live l)) \<and> live_ids l \<inter> dead l = {}
          \<and> cid (offer_stat x) \<notin> live_ids l \<union> dead l
         \<longrightarrow> distinct (map cid (live l')) \<and> live_ids l' \<inter> dead l' = {})"
proof (cases x)
  case (OfferDead s)
  then show ?thesis using inv
    by (auto simp: AddDead_def lru_inv_def live_ids_def)
next
  case (OfferAdd s)
  let ?P = "place s (live l)"
  from Add_spec[OF inv, of s] obtain k l' where r:
    "Add l s = Inr l'" "k \<le> length (live l) + 1"
    "live l' = take (length (live l) + 1 - k) ?P"
    "dead l' = dead l \<union> cid ` set (drop (length (live l) + 1 - k) ?P)"
    "liveSizeMax l' = liveSizeMax l" "lru_inv l'" "liveSize l' \<le> liveSizeMax l'" by blast
  let ?n = "length (live l) + 1 - k"
  have "set (take ?n ?P) \<union> set (drop ?n ?P) = set ?P"
    using set_append[of "take ?n ?P" "drop ?n ?P"] by simp
  then have u: "live_ids l' \<union> dead l' = insert (cid s) (live_ids l \<union> dead l)"
    unfolding live_ids_def r(3,4) using set_place[of s "live l"] by auto
  have dis: "distinct (map cid (live l')) \<and> live_ids l' \<inter> dead l' = {}"
    if h: "distinct (map cid (live l))" "live_ids l \<inter> dead l = {}" "cid s \<notin> live_ids l \<union> dead l"
  proof -
    have "mset (map cid ?P) = mset (map cid (s # live l))" by (simp add: mset_place)
    then have "distinct (map cid ?P) = distinct (map cid (s # live l))"
      by (rule mset_eq_imp_distinct_iff)
    then have dP: "distinct (map cid ?P)" using h by (simp add: live_ids_def)
    have t: "map cid (live l') = take ?n (map cid ?P)" unfolding r(3) by (simp add: take_map)
    have d1: "distinct (map cid (live l'))" unfolding t using dP by (rule distinct_take)
    have "set (take ?n (map cid ?P)) \<inter> set (drop ?n (map cid ?P)) = {}"
      using dP by (rule set_take_disj_set_drop_if_distinct) simp
    then have a: "live_ids l' \<inter> cid ` set (drop ?n ?P) = {}"
      unfolding live_ids_def r(3) by (simp add: take_map drop_map)
    have "live_ids l' \<subseteq> insert (cid s) (live_ids l)"
      unfolding live_ids_def r(3) using set_take_subset[of ?n ?P] set_place[of s "live l"] by auto
    then have b: "live_ids l' \<inter> dead l = {}" using h by auto
    show ?thesis using d1 a b unfolding r(4) by auto
  qed
  show ?thesis
    using r(1,5,6,7) u dis r(4) OfferAdd by auto
qed

lemma offer_all_inv_Nil:
  "lru_inv l \<Longrightarrow>
   \<exists>l'. offer_all l [] = Inr l' \<and> lru_inv l' \<and> liveSizeMax l' = liveSizeMax l
     \<and> (liveSize l \<le> liveSizeMax l \<longrightarrow> liveSize l' \<le> liveSizeMax l')
     \<and> live_ids l' \<union> dead l' = live_ids l \<union> dead l \<union> cid ` offer_stat ` set []
     \<and> dead l \<subseteq> dead l'
     \<and> (distinct (map cid (live l)) \<and> live_ids l \<inter> dead l = {}
          \<and> distinct (map (\<lambda>x. cid (offer_stat x)) [])
          \<and> cid ` offer_stat ` set [] \<inter> (live_ids l \<union> dead l) = {}
         \<longrightarrow> distinct (map cid (live l')) \<and> live_ids l' \<inter> dead l' = {})"
  apply (rule exI[of _ l])
  apply (intro conjI impI)
         apply simp
        apply assumption
       apply simp
      apply assumption
     apply simp
    apply simp
   apply blast
  apply blast
  done

lemma offer_all_inv:
  "lru_inv l \<Longrightarrow>
   \<exists>l'. offer_all l offs = Inr l' \<and> lru_inv l' \<and> liveSizeMax l' = liveSizeMax l
     \<and> (liveSize l \<le> liveSizeMax l \<longrightarrow> liveSize l' \<le> liveSizeMax l')
     \<and> live_ids l' \<union> dead l' = live_ids l \<union> dead l \<union> cid ` offer_stat ` set offs
     \<and> dead l \<subseteq> dead l'
     \<and> (distinct (map cid (live l)) \<and> live_ids l \<inter> dead l = {}
          \<and> distinct (map (\<lambda>x. cid (offer_stat x)) offs)
          \<and> cid ` offer_stat ` set offs \<inter> (live_ids l \<union> dead l) = {}
         \<longrightarrow> distinct (map cid (live l')) \<and> live_ids l' \<inter> dead l' = {})"
proof (induction offs arbitrary: l)
  case Nil
  then show ?case by (rule offer_all_inv_Nil)
next
  case (Cons x offs)
  from classify_step[OF Cons.prems, of x] obtain l1 where s1:
    "classify l x = Inr l1" "lru_inv l1" "liveSizeMax l1 = liveSizeMax l"
    "liveSize l \<le> liveSizeMax l \<longrightarrow> liveSize l1 \<le> liveSizeMax l1"
    "live_ids l1 \<union> dead l1 = insert (cid (offer_stat x)) (live_ids l \<union> dead l)"
    "dead l \<subseteq> dead l1"
    "distinct (map cid (live l)) \<and> live_ids l \<inter> dead l = {}
          \<and> cid (offer_stat x) \<notin> live_ids l \<union> dead l
         \<longrightarrow> distinct (map cid (live l1)) \<and> live_ids l1 \<inter> dead l1 = {}"
    by (elim exE conjE) (rule that)
  from Cons.IH[OF s1(2)] obtain l' where s2:
    "offer_all l1 offs = Inr l'" "lru_inv l'" "liveSizeMax l' = liveSizeMax l1"
    "liveSize l1 \<le> liveSizeMax l1 \<longrightarrow> liveSize l' \<le> liveSizeMax l'"
    "live_ids l' \<union> dead l' = live_ids l1 \<union> dead l1 \<union> cid ` offer_stat ` set offs"
    "dead l1 \<subseteq> dead l'"
    "distinct (map cid (live l1)) \<and> live_ids l1 \<inter> dead l1 = {}
          \<and> distinct (map (\<lambda>x. cid (offer_stat x)) offs)
          \<and> cid ` offer_stat ` set offs \<inter> (live_ids l1 \<union> dead l1) = {}
         \<longrightarrow> distinct (map cid (live l')) \<and> live_ids l' \<inter> dead l' = {}"
    by (elim exE conjE) (rule that)
  have r1: "offer_all l (x # offs) = Inr l'" using s1(1) s2(1) by simp
  have r2: "live_ids l' \<union> dead l' = live_ids l \<union> dead l \<union> cid ` offer_stat ` set (x # offs)"
    unfolding s2(5) s1(5) by auto
  have r3: "distinct (map cid (live l')) \<and> live_ids l' \<inter> dead l' = {}"
    if h: "distinct (map cid (live l))" "live_ids l \<inter> dead l = {}"
      "distinct (map (\<lambda>x. cid (offer_stat x)) (x # offs))"
      "cid ` offer_stat ` set (x # offs) \<inter> (live_ids l \<union> dead l) = {}"
  proof -
    have a: "cid (offer_stat x) \<notin> live_ids l \<union> dead l" using h(4) by auto
    have b: "distinct (map cid (live l1)) \<and> live_ids l1 \<inter> dead l1 = {}"
      using s1(7) h(1,2) a by blast
    have c: "distinct (map (\<lambda>x. cid (offer_stat x)) offs)" using h(3) by simp
    have "cid (offer_stat x) \<notin> cid ` offer_stat ` set offs" using h(3) by auto
    then have d: "cid ` offer_stat ` set offs \<inter> (live_ids l1 \<union> dead l1) = {}"
      unfolding s1(5) using h(4) by auto
    show ?thesis using s2(7) b c d by blast
  qed
  show ?case
    using r1 s2(2) s2(3) s1(3) s1(4) s2(4) r2 s1(6) s2(6) r3
    by (intro exI[of _ l']) (simp only: , blast)
qed

lemma offer_all_append:
  "offer_all l (xs @ ys) = (case offer_all l xs of Inl e \<Rightarrow> Inl e | Inr l' \<Rightarrow> offer_all l' ys)"
  by (induction xs arbitrary: l) (auto split: sum.splits)

lemma lru_inv_NewLRU: "lru_inv (NewLRU m)"
  by (simp add: lru_inv_def NewLRU_def sum_size_def mtime_desc_def)

section \<open>The walks\<close>

lemma walkStoreFn_step:
  "walkStoreFn env c l =
     (case walk_step env c of
        Inl e \<Rightarrow> Inl e
      | Inr None \<Rightarrow> Inr l
      | Inr (Some x) \<Rightarrow> classify l x)"
  unfolding walkStoreFn_def walk_step_def Let_def
  by (simp split: option.splits sum.splits)

lemma Walk_store_offers:
  "Walk (walkStoreFn env) cs l = Inr l' \<Longrightarrow> offer_all l (store_offers env cs) = Inr l'"
proof (induction cs arbitrary: l)
  case Nil
  then show ?case by (simp add: store_offers_def map_filter_simps)
next
  case (Cons c cs)
  show ?case
  proof (cases "walk_step env c")
    case (Inl e)
    then show ?thesis using Cons.prems by (simp add: walkStoreFn_step[of env c l])
  next
    case (Inr x)
    show ?thesis
    proof (cases x)
      case None
      then have "Walk (walkStoreFn env) cs l = Inr l'"
        using Cons.prems Inr by (simp add: walkStoreFn_step[of env c l])
      then have "offer_all l (store_offers env cs) = Inr l'" by (rule Cons.IH)
      then show ?thesis using Inr None
        by (simp add: store_offers_def map_filter_simps walk_offer_def)
    next
      case (Some y)
      show ?thesis
      proof (cases "classify l y")
        case (Inl e)
        then show ?thesis using Cons.prems Inr Some by (simp add: walkStoreFn_step[of env c l])
      next
        case r: (Inr l1)
        then have "Walk (walkStoreFn env) cs l1 = Inr l'"
          using Cons.prems Inr Some by (simp add: walkStoreFn_step[of env c l])
        then have "offer_all l1 (store_offers env cs) = Inr l'" by (rule Cons.IH)
        then show ?thesis using Inr Some r
          by (simp add: store_offers_def map_filter_simps walk_offer_def)
      qed
    qed
  qed
qed

lemma Walk_store_dead_subset:
  assumes "Walk (walkStoreFn env) cs (NewLRU m) = Inr lru"
  shows "dead lru \<subseteq> store_ids env cs"
proof -
  have o: "offer_all (NewLRU m) (store_offers env cs) = Inr lru"
    using assms by (rule Walk_store_offers)
  from offer_all_inv[OF lru_inv_NewLRU, of m "store_offers env cs"] obtain l' where r:
    "offer_all (NewLRU m) (store_offers env cs) = Inr l'"
    "live_ids l' \<union> dead l' = live_ids (NewLRU m) \<union> dead (NewLRU m)
        \<union> cid ` offer_stat ` set (store_offers env cs)"
    by (elim exE conjE) (rule that)
  have "l' = lru" using o r(1) by simp
  then have "live_ids lru \<union> dead lru = cid ` offer_stat ` set (store_offers env cs)"
    using r(2) by (simp add: NewLRU_def live_ids_def)
  then show ?thesis unfolding store_ids_def by auto
qed

lemma someChunkDead_iff: "someChunkDead lru chs = (\<exists>ch\<in>set chs. ID ch \<in> dead lru)"
  by (induction chs) (auto simp: IsDead_def)

lemma tmp_file_skipped: "tmp_file c \<Longrightarrow> walk_step env c = Inr None"
  unfolding tmp_file_def walk_step_def
  by (auto split: option.splits if_splits)

lemma Walk_filter_tmp:
  "Walk (walkStoreFn env) (filter (\<lambda>c. \<not> tmp_file c) cs) l = Walk (walkStoreFn env) cs l"
proof (induction cs arbitrary: l)
  case Nil
  show ?case by simp
next
  case (Cons c cs)
  show ?case
  proof (cases "tmp_file c")
    case True
    then have "walkStoreFn env c l = Inr l"
      by (simp add: walkStoreFn_step[of env c l] tmp_file_skipped)
    then show ?thesis using True Cons.IH by simp
  next
    case False
    then show ?thesis using Cons.IH by (simp split: sum.splits)
  qed
qed

lemma walkStoreFn_store_walk_update: "walkStoreFn (env\<lparr>store_walk := cs\<rparr>) = walkStoreFn env"
  by (intro ext) (simp add: walkStoreFn_def Let_def split: option.splits sum.splits)

lemma walkIndicesFn_store_walk_update:
  "walkIndicesFn (env\<lparr>store_walk := cs\<rparr>) = walkIndicesFn env"
  by (intro ext)
    (simp add: walkIndicesFn_def integrityWorker_def checkNarContents_def Let_def
      split: option.splits sum.splits)

lemma sentinel_is_ignored:
  "walkStoreFn env \<lparr>path = p, info = i, err = Some ErrNotExist\<rparr> lru = Inr lru"
  by (simp add: walkStoreFn_def)

lemma gcOnce_without_tmp_files:
  "gcOnce (env\<lparr>store_walk := filter (\<lambda>c. \<not> tmp_file c) (store_walk env)\<rparr>) = gcOnce env"
  by (simp add: gcOnce_def walkStoreFn_store_walk_update walkIndicesFn_store_walk_update
      Walk_filter_tmp maxCacheSize_def Let_def split: sum.splits)

lemma integrityWorker_eq:
  "integrityWorker env p idx D = (if integrityWorker env p idx {} = {} then D else insert p D)"
  unfolding integrityWorker_def Let_def
  by (simp split: option.splits)

lemma referentialCheck_eq:
  "referentialCheck lru p idx D =
     (if Chunks idx = [] \<or> (\<exists>ch\<in>set (Chunks idx). ID ch \<in> dead lru) then insert p D else D)"
  unfolding referentialCheck_def someChunkDead_iff by simp

lemma walkIndicesFn_loaded:
  assumes "walkIndicesFn env lru (now env + 10 * Minute) c D = Inr D'"
  shows "err c = None \<and> info c \<noteq> None
     \<and> (case loaded_index env c of
          None \<Rightarrow> D' = D
        | Some index \<Rightarrow>
            D' = referentialCheck lru (path c) index (integrityWorker env (path c) index D))"
  using assms unfolding walkIndicesFn_def loaded_index_def Let_def
  by (auto split: option.splits sum.splits if_splits)

lemma Walk_indices_inv:
  "Walk (walkIndicesFn env lru (now env + 10 * Minute)) cs D = Inr D' \<Longrightarrow>
   D \<subseteq> D' \<and>
   (\<forall>c\<in>set cs. err c = None \<and> info c \<noteq> None \<and>
      (\<forall>index. loaded_index env c = Some index \<longrightarrow> path c \<notin> D' \<longrightarrow>
         Chunks index \<noteq> [] \<and> (\<forall>ch\<in>set (Chunks index). ID ch \<notin> dead lru)
         \<and> integrityWorker env (path c) index {} = {}))"
proof (induction cs arbitrary: D)
  case Nil
  then show ?case by simp
next
  case (Cons c cs)
  let ?fn = "walkIndicesFn env lru (now env + 10 * Minute)"
  from Cons.prems obtain D1 where s: "?fn c D = Inr D1" "Walk ?fn cs D1 = Inr D'"
    by (auto split: sum.splits)
  from Cons.IH[OF s(2)] have ih: "D1 \<subseteq> D'"
    "\<forall>c\<in>set cs. err c = None \<and> info c \<noteq> None \<and>
      (\<forall>index. loaded_index env c = Some index \<longrightarrow> path c \<notin> D' \<longrightarrow>
         Chunks index \<noteq> [] \<and> (\<forall>ch\<in>set (Chunks index). ID ch \<notin> dead lru)
         \<and> integrityWorker env (path c) index {} = {})"
    by blast+
  from walkIndicesFn_loaded[OF s(1)] have l: "err c = None" "info c \<noteq> None"
    "case loaded_index env c of
          None \<Rightarrow> D1 = D
        | Some index \<Rightarrow>
            D1 = referentialCheck lru (path c) index (integrityWorker env (path c) index D)"
    by blast+
  have sub: "D \<subseteq> D1"
  proof (cases "loaded_index env c")
    case None
    then show ?thesis using l(3) by simp
  next
    case (Some index)
    then have "D1 = referentialCheck lru (path c) index (integrityWorker env (path c) index D)"
      using l(3) by simp
    then show ?thesis
      unfolding referentialCheck_eq[of lru "path c" index]
        integrityWorker_eq[of env "path c" index D]
      by (auto split: if_splits)
  qed
  have here: "Chunks index \<noteq> [] \<and> (\<forall>ch\<in>set (Chunks index). ID ch \<notin> dead lru)
         \<and> integrityWorker env (path c) index {} = {}"
    if h: "loaded_index env c = Some index" "path c \<notin> D'" for index
  proof -
    have d1: "D1 = referentialCheck lru (path c) index (integrityWorker env (path c) index D)"
      using l(3) h(1) by simp
    have n1: "path c \<notin> D1" using h(2) ih(1) by blast
    show ?thesis
      using d1 n1
      unfolding referentialCheck_eq[of lru "path c" index]
        integrityWorker_eq[of env "path c" index D]
      by (auto split: if_splits)
  qed
  show ?case using sub ih l(1,2) here by auto
qed

section \<open>Two passes\<close>

lemma classify_keeps:
  assumes inv: "lru_inv l" and c: "classify l x = Inr l1"
  shows "lru_inv l1 \<and> dead l \<subseteq> dead l1
     \<and> set (live l1) \<subseteq> insert (offer_stat x) (set (live l))
     \<and> (\<forall>s\<in>set (live l). s \<in> set (live l1) \<or> cid s \<in> dead l1)
     \<and> (\<forall>s. x = OfferAdd s \<longrightarrow> s \<in> set (live l1) \<or> cid s \<in> dead l1)
     \<and> (\<forall>s. x = OfferDead s \<longrightarrow> cid s \<in> dead l1)"
proof (cases x)
  case (OfferDead s)
  then have "l1 = AddDead l s" using c by simp
  then show ?thesis using inv OfferDead by (auto simp: AddDead_def lru_inv_def)
next
  case (OfferAdd s)
  let ?P = "place s (live l)"
  from Add_spec[OF inv, of s] obtain k l' where r:
    "Add l s = Inr l'" "live l' = take (length (live l) + 1 - k) ?P"
    "dead l' = dead l \<union> cid ` set (drop (length (live l) + 1 - k) ?P)" "lru_inv l'"
    by (elim exE conjE) (rule that)
  have "Add l s = Inr l1" using c unfolding OfferAdd by simp
  then have "Inr l' = (Inr l1 :: go_error + chunkLRU)" unfolding r(1) .
  then have e: "l' = l1" by (rule sum.inject(2)[THEN iffD1])
  let ?n = "length (live l) + 1 - k"
  note r2 = r(2)[unfolded e] and r3 = r(3)[unfolded e] and r4 = r(4)[unfolded e]
  have tk: "set (take ?n ?P) \<subseteq> insert s (set (live l))"
    using set_take_subset[of ?n ?P] unfolding set_place .
  have a: "set (live l1) \<subseteq> insert s (set (live l))"
    unfolding r2 by (rule tk)
  have b: "y \<in> set (live l1) \<or> cid y \<in> dead l1" if "y \<in> insert s (set (live l))" for y
  proof -
    have "y \<in> set ?P" using that unfolding set_place .
    then have "y \<in> set (take ?n ?P @ drop ?n ?P)" by simp
    then have "y \<in> set (take ?n ?P) \<or> y \<in> set (drop ?n ?P)"
      unfolding set_append by (rule UnE) simp_all
    then show ?thesis
    proof
      assume "y \<in> set (take ?n ?P)"
      then show ?thesis unfolding r2 by (rule disjI1)
    next
      assume "y \<in> set (drop ?n ?P)"
      then have "cid y \<in> dead l1" unfolding r3 by simp
      then show ?thesis by (rule disjI2)
    qed
  qed
  have d: "dead l \<subseteq> dead l1" unfolding r3 by simp
  have b1: "\<forall>y\<in>set (live l). y \<in> set (live l1) \<or> cid y \<in> dead l1" using b by simp
  have b2: "s \<in> set (live l1) \<or> cid s \<in> dead l1" using b by simp
  show ?thesis unfolding OfferAdd using a b1 b2 d r4 by simp
qed

lemma offer_all_keeps:
  "lru_inv l \<Longrightarrow> offer_all l offs = Inr l' \<Longrightarrow>
   lru_inv l' \<and> dead l \<subseteq> dead l'
   \<and> set (live l') \<subseteq> set (live l) \<union> {s. OfferAdd s \<in> set offs}
   \<and> (\<forall>s. s \<in> set (live l) \<or> OfferAdd s \<in> set offs \<longrightarrow> s \<in> set (live l') \<or> cid s \<in> dead l')
   \<and> (\<forall>s. OfferDead s \<in> set offs \<longrightarrow> cid s \<in> dead l')"
proof (induction offs arbitrary: l)
  case Nil
  then show ?case by auto
next
  case (Cons x offs)
  from Cons.prems(2) obtain l1 where s: "classify l x = Inr l1" "offer_all l1 offs = Inr l'"
    by (auto split: sum.splits)
  from classify_keeps[OF Cons.prems(1) s(1)] have k:
    "lru_inv l1" "dead l \<subseteq> dead l1"
    "set (live l1) \<subseteq> insert (offer_stat x) (set (live l))"
    "\<forall>s\<in>set (live l). s \<in> set (live l1) \<or> cid s \<in> dead l1"
    "\<forall>s. x = OfferAdd s \<longrightarrow> s \<in> set (live l1) \<or> cid s \<in> dead l1"
    "\<forall>s. x = OfferDead s \<longrightarrow> cid s \<in> dead l1"
    by blast+
  from Cons.IH[OF k(1) s(2)] have ih:
    "lru_inv l'" "dead l1 \<subseteq> dead l'"
    "set (live l') \<subseteq> set (live l1) \<union> {s. OfferAdd s \<in> set offs}"
    "\<forall>s. s \<in> set (live l1) \<or> OfferAdd s \<in> set offs \<longrightarrow> s \<in> set (live l') \<or> cid s \<in> dead l'"
    "\<forall>s. OfferDead s \<in> set offs \<longrightarrow> cid s \<in> dead l'"
    by blast+
  have a: "set (live l') \<subseteq> set (live l) \<union> {s. OfferAdd s \<in> set (x # offs)}"
  proof
    fix y assume "y \<in> set (live l')"
    then have "y \<in> set (live l1) \<or> OfferAdd y \<in> set offs" using ih(3) by blast
    then show "y \<in> set (live l) \<union> {s. OfferAdd s \<in> set (x # offs)}"
    proof
      assume "y \<in> set (live l1)"
      then have "y = offer_stat x \<or> y \<in> set (live l)" using k(3) by blast
      then show ?thesis
      proof
        assume yx: "y = offer_stat x"
        show ?thesis
        proof (cases x)
          case (OfferAdd s)
          then show ?thesis using yx by simp
        next
          case (OfferDead s)
          have "l1 = AddDead l s" using s(1) OfferDead by simp
          then have "live l1 = live l" by (simp add: AddDead_def)
          then show ?thesis using \<open>y \<in> set (live l1)\<close> by simp
        qed
      next
        assume "y \<in> set (live l)" then show ?thesis by simp
      qed
    next
      assume "OfferAdd y \<in> set offs" then show ?thesis by simp
    qed
  qed
  have b: "y \<in> set (live l') \<or> cid y \<in> dead l'"
    if "y \<in> set (live l) \<or> OfferAdd y \<in> set (x # offs)" for y
  proof -
    from that consider "y \<in> set (live l)" | "x = OfferAdd y" | "OfferAdd y \<in> set offs" by auto
    then show ?thesis
    proof cases
      case 1
      then have "y \<in> set (live l1) \<or> cid y \<in> dead l1" using k(4) by blast
      then show ?thesis using ih(4) ih(2) by blast
    next
      case 2
      then have "y \<in> set (live l1) \<or> cid y \<in> dead l1" using k(5) by blast
      then show ?thesis using ih(4) ih(2) by blast
    next
      case 3
      then show ?thesis using ih(4) by blast
    qed
  qed
  have c: "cid y \<in> dead l'" if "OfferDead y \<in> set (x # offs)" for y
  proof -
    from that consider "x = OfferDead y" | "OfferDead y \<in> set offs" by auto
    then show ?thesis
    proof cases
      case 1 then show ?thesis using k(6) ih(2) by blast
    next
      case 2 then show ?thesis using ih(5) by blast
    qed
  qed
  have d: "dead l \<subseteq> dead l'" using k(2) ih(2) by blast
  show ?case using ih(1) d a b c by blast
qed

lemma sum_set_le_sum_list: "sum f (set ys) \<le> sum_list (map f ys)" for f :: "'a \<Rightarrow> nat"
proof (induction ys)
  case Nil
  show ?case by simp
next
  case (Cons y ys)
  have "sum f (set (y # ys)) \<le> f y + sum f (set ys)"
    by (simp add: sum.insert_if)
  then show ?case using Cons.IH by simp
qed

lemma total_size_distinct_subset:
  assumes "distinct xs" "set xs \<subseteq> set ys"
  shows "total_size xs \<le> total_size ys"
proof -
  let ?f = "\<lambda>c. unat (csize c)"
  have "total_size xs = sum ?f (set xs)"
    unfolding total_size_def using assms(1) by (simp add: sum_list_distinct_conv_sum_set)
  also have "\<dots> \<le> sum ?f (set ys)"
    using assms(2) by (intro sum_mono2) simp_all
  also have "\<dots> \<le> total_size ys"
    unfolding total_size_def by (rule sum_set_le_sum_list)
  finally show ?thesis .
qed

lemma unat_sum_size: "total_size xs < 2 ^ 64 \<Longrightarrow> unat (sum_size xs) = total_size xs"
proof (induction xs)
  case Nil
  show ?case by (simp add: sum_size_def total_size_def)
next
  case (Cons x xs)
  have t: "total_size (x # xs) = unat (csize x) + total_size xs" by (simp add: total_size_def)
  have s: "sum_size (x # xs) = csize x + sum_size xs" by (simp add: sum_size_def)
  have "total_size xs < 2 ^ 64" using Cons.prems t by simp
  then have ih: "unat (sum_size xs) = total_size xs" by (rule Cons.IH)
  have "unat (csize x) + unat (sum_size xs) < 2 ^ LENGTH(64)"
    using Cons.prems t ih by simp
  then have "unat (csize x + sum_size xs) = unat (csize x) + unat (sum_size xs)"
    by (rule unat_add_lem[THEN iffD1])
  then show ?case unfolding s t ih .
qed

lemma Walk_store_steps:
  "Walk (walkStoreFn env) cs l = Inr l' \<Longrightarrow> \<forall>c\<in>set cs. \<exists>x. walk_step env c = Inr x"
proof (induction cs arbitrary: l)
  case Nil
  show ?case by simp
next
  case (Cons c cs)
  from Cons.prems obtain l1 where s: "walkStoreFn env c l = Inr l1" "Walk (walkStoreFn env) cs l1 = Inr l'"
    by (auto split: sum.splits)
  have "\<exists>x. walk_step env c = Inr x"
    using s(1) unfolding walkStoreFn_step[of env c l] by (cases "walk_step env c") simp_all
  moreover have "\<forall>c\<in>set cs. \<exists>x. walk_step env c = Inr x" using s(2) by (rule Cons.IH)
  ultimately show ?case by simp
qed

lemma Walk_eq_offer_all:
  "\<forall>c\<in>set cs. \<exists>x. walk_step env c = Inr x \<Longrightarrow>
   Walk (walkStoreFn env) cs l = offer_all l (store_offers env cs)"
proof (induction cs arbitrary: l)
  case Nil
  show ?case by (simp add: store_offers_def map_filter_simps)
next
  case (Cons c cs)
  from Cons.prems obtain x where x: "walk_step env c = Inr x" by auto
  have rest: "\<forall>c\<in>set cs. \<exists>x. walk_step env c = Inr x" using Cons.prems by simp
  note ih = Cons.IH[OF rest]
  show ?case
  proof (cases x)
    case None
    have "walkStoreFn env c l = Inr l" unfolding walkStoreFn_step[of env c l] x None by simp
    moreover have "store_offers env (c # cs) = store_offers env cs"
      by (simp add: store_offers_def map_filter_simps walk_offer_def x None)
    ultimately show ?thesis using ih[of l] by simp
  next
    case (Some y)
    have f: "walkStoreFn env c l = classify l y" unfolding walkStoreFn_step[of env c l] x Some by simp
    have o: "store_offers env (c # cs) = y # store_offers env cs"
      by (simp add: store_offers_def map_filter_simps walk_offer_def x Some)
    show ?thesis
    proof (cases "classify l y")
      case (Inl e)
      then show ?thesis unfolding o using f by simp
    next
      case (Inr l1)
      then show ?thesis unfolding o using f ih[of l1] by simp
    qed
  qed
qed

lemma walk_step_after:
  "walk_step (after_pass env ops t) c =
     (case walk_step env c of
        Inl e \<Rightarrow> Inl e
      | Inr None \<Rightarrow> Inr None
      | Inr (Some x) \<Rightarrow>
          if RemoveChunk (cid (offer_stat x)) \<in> set ops then Inr (Some (OfferDead (offer_stat x)))
          else Inr (Some x))"
  unfolding walk_step_def after_pass_def
  by (auto split: option.splits sum.splits)

lemma store_offers_after:
  assumes "\<forall>c\<in>set cs. \<exists>x. walk_step env c = Inr x"
  shows "store_offers (after_pass env ops t)
           (filter (\<lambda>c. case walk_offer env c of
                          None \<Rightarrow> True
                        | Some x \<Rightarrow> RemoveChunk (cid (offer_stat x)) \<notin> set ops) cs)
         = filter (\<lambda>x. RemoveChunk (cid (offer_stat x)) \<notin> set ops) (store_offers env cs)
     \<and> (\<forall>c\<in>set (filter (\<lambda>c. case walk_offer env c of
                          None \<Rightarrow> True
                        | Some x \<Rightarrow> RemoveChunk (cid (offer_stat x)) \<notin> set ops) cs).
          \<exists>x. walk_step (after_pass env ops t) c = Inr x)"
  using assms
proof (induction cs)
  case Nil
  show ?case by (simp add: store_offers_def map_filter_simps)
next
  case (Cons c cs)
  from Cons.prems obtain x where x: "walk_step env c = Inr x" by auto
  have rest: "\<forall>c\<in>set cs. \<exists>x. walk_step env c = Inr x" using Cons.prems by simp
  note ih = Cons.IH[OF rest]
  show ?case
  proof (cases x)
    case None
    have "walk_step (after_pass env ops t) c = Inr None"
      unfolding walk_step_after x None by simp
    then show ?thesis using ih x None
      by (simp add: store_offers_def map_filter_simps walk_offer_def)
  next
    case (Some y)
    show ?thesis
    proof (cases "RemoveChunk (cid (offer_stat y)) \<in> set ops")
      case True
      then show ?thesis using ih x Some
        by (simp add: store_offers_def map_filter_simps walk_offer_def)
    next
      case False
      then have "walk_step (after_pass env ops t) c = Inr (Some y)"
        unfolding walk_step_after x Some by simp
      then show ?thesis using ih x Some False
        by (simp add: store_offers_def map_filter_simps walk_offer_def)
    qed
  qed
qed

lemma filter_only_adds:
  assumes "\<forall>s. OfferDead s \<in> set offs \<longrightarrow> \<not> P (OfferDead s)"
  shows "filter P offs = map OfferAdd (map offer_stat (filter P offs))"
  using assms
proof (induction offs)
  case Nil
  show ?case by simp
next
  case (Cons x offs)
  have ih: "filter P offs = map OfferAdd (map offer_stat (filter P offs))"
    using Cons.prems by (intro Cons.IH) simp
  show ?case
  proof (cases x)
    case (OfferAdd s)
    show ?thesis
    proof (cases "P x")
      case True
      have "filter P (x # offs) = x # filter P offs" using True by simp
      also have "\<dots> = OfferAdd s # map OfferAdd (map offer_stat (filter P offs))"
        using ih OfferAdd by simp
      finally show ?thesis using True OfferAdd by simp
    next
      case False
      then show ?thesis using ih by simp
    qed
  next
    case (OfferDead s)
    then have "\<not> P x" using Cons.prems by simp
    then show ?thesis using ih by simp
  qed
qed

lemma distinct_offer_stats:
  assumes "distinct (map (\<lambda>x. cid (offer_stat x)) offs)"
  shows "distinct (map offer_stat (filter P offs))"
proof -
  have "distinct (map (\<lambda>x. cid (offer_stat x)) (filter P offs))"
    using assms by (rule distinct_map_filter)
  then have "distinct (map cid (map offer_stat (filter P offs)))" by (simp add: comp_def)
  then show ?thesis
    using distinct_map[of cid "map offer_stat (filter P offs)"] by blast
qed

lemma second_store_walk:
  assumes w1: "Walk (walkStoreFn env) (store_walk env) (NewLRU m) = Inr lru"
    and rem: "\<And>i. (RemoveChunk i \<in> set ops) = (i \<in> dead lru)"
    and dist: "distinct (map (\<lambda>x. cid (offer_stat x)) (store_offers env (store_walk env)))"
    and nov: "total_size (map offer_stat (store_offers env (store_walk env))) < 2 ^ 64"
  shows "\<exists>lru'. Walk (walkStoreFn (after_pass env ops t)) (store_walk (after_pass env ops t))
            (NewLRU m) = Inr lru' \<and> dead lru' = {}"
proof -
  define offs where "offs = store_offers env (store_walk env)"
  define P where "P = (\<lambda>x. RemoveChunk (cid (offer_stat x)) \<notin> set ops)"
  define stats where "stats = map offer_stat (filter P offs)"
  have o1: "offer_all (NewLRU m) offs = Inr lru"
    unfolding offs_def using w1 by (rule Walk_store_offers)
  have steps: "\<forall>c\<in>set (store_walk env). \<exists>x. walk_step env c = Inr x"
    using w1 by (rule Walk_store_steps)
  have sw: "store_walk (after_pass env ops t) =
      filter (\<lambda>c. case walk_offer env c of
                          None \<Rightarrow> True
                        | Some x \<Rightarrow> RemoveChunk (cid (offer_stat x)) \<notin> set ops) (store_walk env)"
    by (simp add: after_pass_def)
  from store_offers_after[OF steps, of ops t]
  have so: "store_offers (after_pass env ops t) (store_walk (after_pass env ops t)) = filter P offs"
    and steps2: "\<forall>c\<in>set (store_walk (after_pass env ops t)).
          \<exists>x. walk_step (after_pass env ops t) c = Inr x"
    unfolding sw offs_def P_def by blast+
  have w2: "Walk (walkStoreFn (after_pass env ops t)) (store_walk (after_pass env ops t)) (NewLRU m)
      = offer_all (NewLRU m) (filter P offs)"
    using Walk_eq_offer_all[OF steps2] unfolding so .
  from offer_all_keeps[OF lru_inv_NewLRU o1] have k:
    "lru_inv lru"
    "set (live lru) \<subseteq> set (live (NewLRU m)) \<union> {s. OfferAdd s \<in> set offs}"
    "\<forall>s. s \<in> set (live (NewLRU m)) \<or> OfferAdd s \<in> set offs \<longrightarrow> s \<in> set (live lru) \<or> cid s \<in> dead lru"
    "\<forall>s. OfferDead s \<in> set offs \<longrightarrow> cid s \<in> dead lru"
    by blast+
  have nd: "\<forall>s. OfferDead s \<in> set offs \<longrightarrow> \<not> P (OfferDead s)"
    using k(4) rem by (simp add: P_def)
  have fo: "filter P offs = map OfferAdd stats"
    unfolding stats_def using nd by (rule filter_only_adds)
  have ds: "distinct stats"
    unfolding stats_def using dist[folded offs_def] by (rule distinct_offer_stats)
  have sub: "set stats \<subseteq> set (live lru)"
  proof
    fix s assume "s \<in> set stats"
    then obtain x where x: "x \<in> set offs" "P x" "s = offer_stat x"
      unfolding stats_def by auto
    show "s \<in> set (live lru)"
    proof (cases x)
      case (OfferAdd s')
      then have "OfferAdd s \<in> set offs" using x by simp
      then have "s \<in> set (live lru) \<or> cid s \<in> dead lru" using k(3) by blast
      moreover have "cid s \<notin> dead lru" using x(2,3) rem by (simp add: P_def)
      ultimately show ?thesis by blast
    next
      case (OfferDead s')
      then show ?thesis using nd x by blast
    qed
  qed
  have t1: "total_size stats \<le> total_size (live lru)"
    using ds sub by (rule total_size_distinct_subset)
  from offer_all_inv[OF lru_inv_NewLRU, of m offs] obtain l' where inv:
    "offer_all (NewLRU m) offs = Inr l'" "liveSizeMax l' = liveSizeMax (NewLRU m)"
    "liveSize (NewLRU m) \<le> liveSizeMax (NewLRU m) \<longrightarrow> liveSize l' \<le> liveSizeMax l'"
    "distinct (map cid (live (NewLRU m))) \<and> live_ids (NewLRU m) \<inter> dead (NewLRU m) = {}
          \<and> distinct (map (\<lambda>x. cid (offer_stat x)) offs)
          \<and> cid ` offer_stat ` set offs \<inter> (live_ids (NewLRU m) \<union> dead (NewLRU m)) = {}
         \<longrightarrow> distinct (map cid (live l')) \<and> live_ids l' \<inter> dead l' = {}"
    by (elim exE conjE) (rule that)
  have "Inr l' = (Inr lru :: go_error + chunkLRU)" using inv(1) o1 by simp
  then have e: "l' = lru" by (rule sum.inject(2)[THEN iffD1])
  note inv2 = inv(2)[unfolded e] and inv3 = inv(3)[unfolded e] and inv4 = inv(4)[unfolded e]
  have mx: "liveSizeMax lru = m" using inv2 by (simp add: NewLRU_def)
  have le: "liveSize lru \<le> m" using inv3 mx by (simp add: NewLRU_def)
  have "distinct (map cid (live lru))"
    using inv4 dist[folded offs_def] by (simp add: NewLRU_def live_ids_def)
  then have dl: "distinct (live lru)" by (simp add: distinct_map)
  have "set (live lru) \<subseteq> set (map offer_stat offs)"
  proof
    fix s assume "s \<in> set (live lru)"
    then have "OfferAdd s \<in> set offs" using k(2) by (auto simp: NewLRU_def)
    then have "offer_stat (OfferAdd s) \<in> offer_stat ` set offs" by (rule imageI)
    then show "s \<in> set (map offer_stat offs)" by simp
  qed
  with dl have "total_size (live lru) \<le> total_size (map offer_stat offs)"
    by (rule total_size_distinct_subset)
  then have "total_size (live lru) < 2 ^ 64" using nov[folded offs_def] by simp
  then have "unat (sum_size (live lru)) = total_size (live lru)" by (rule unat_sum_size)
  moreover have "liveSize lru = sum_size (live lru)" using k(1) by (simp add: lru_inv_def)
  moreover have "unat (liveSize lru) \<le> unat m" using le by (simp add: word_le_nat_alt)
  ultimately have "total_size stats \<le> unat m" using t1 by simp
  then have "unat (liveSize (NewLRU m)) + total_size stats \<le> unat (liveSizeMax (NewLRU m))"
    by (simp add: NewLRU_def)
  from offer_all_Add_fits[OF lru_inv_NewLRU this] obtain lru' where
    "offer_all (NewLRU m) (map OfferAdd stats) = Inr lru'" "dead lru' = dead (NewLRU m)"
    by (elim exE conjE) (rule that)
  then have "Walk (walkStoreFn (after_pass env ops t)) (store_walk (after_pass env ops t)) (NewLRU m)
      = Inr lru' \<and> dead lru' = {}"
    unfolding w2 fo by (simp add: NewLRU_def)
  then show ?thesis by (rule exI)
qed

lemma integrityWorker_after:
  "integrityWorker (after_pass env ops t) p idx D = integrityWorker env p idx D"
proof -
  have a: "narEntries (after_pass env ops t) = narEntries env"
    and b: "assembleNarinfo (after_pass env ops t) = assembleNarinfo env"
    by (simp_all add: after_pass_def)
  show ?thesis unfolding integrityWorker_def checkNarContents_def a b by (rule refl)
qed

lemma integrityWorker_worker_update:
  "integrityWorker (env\<lparr>worker_receives := r\<rparr>) p idx D = integrityWorker env p idx D"
proof -
  have a: "narEntries (env\<lparr>worker_receives := r\<rparr>) = narEntries env"
    and b: "assembleNarinfo (env\<lparr>worker_receives := r\<rparr>) = assembleNarinfo env"
    by simp_all
  show ?thesis unfolding integrityWorker_def checkNarContents_def a b by (rule refl)
qed

lemma walkStoreFn_worker_update: "walkStoreFn (env\<lparr>worker_receives := r\<rparr>) = walkStoreFn env"
  by (intro ext) (simp add: walkStoreFn_def Let_def split: option.splits sum.splits)

lemma walkIndicesFn_noop:
  assumes "err c = None" "info c = Some fi"
    and "IsDir fi \<or> (loaded_index env c = Some index \<and> Chunks index \<noteq> []
          \<and> integrityWorker env (path c) index {} = {})"
    and "dead lru' = {}"
  shows "walkIndicesFn ((after_pass env ops t)\<lparr>worker_receives := r\<rparr>) lru' T c D = Inr D
     \<or> (\<not> r (path c)
         \<and> walkIndicesFn ((after_pass env ops t)\<lparr>worker_receives := r\<rparr>) lru' T c D = Inl SendBlocks)"
proof (cases "IsDir fi")
  case True
  then show ?thesis using assms(1,2) by (simp add: walkIndicesFn_def)
next
  case False
  let ?env2 = "(after_pass env ops t)\<lparr>worker_receives := r\<rparr>"
  from False have l: "loaded_index env c = Some index" and ne: "Chunks index \<noteq> []"
    and iw: "integrityWorker env (path c) index {} = {}"
    using assms(3) by blast+
  have len: "\<not> length (path c) < length (indices_Path env)"
    and gi: "GetIndex env (drop (length (indices_Path env)) (path c)) = Inr index"
    using l assms(1,2) False unfolding loaded_index_def
    by (auto split: if_splits sum.splits)
  have iw2: "integrityWorker ?env2 (path c) index D = D"
    unfolding integrityWorker_worker_update integrityWorker_after
    using integrityWorker_eq[of env "path c" index D] iw by simp
  have rc: "referentialCheck lru' (path c) index D = D"
    unfolding referentialCheck_eq using ne assms(4) by simp
  have ip: "indices_Path ?env2 = indices_Path env"
    and gi2: "GetIndex ?env2 = GetIndex env"
    and wr: "worker_receives ?env2 = r"
    by (simp_all add: after_pass_def)
  show ?thesis
    unfolding walkIndicesFn_def Let_def ip gi2 wr
    using assms(1,2) False len gi iw2 rc by simp
qed

lemma Walk_noop_or_block:
  "(\<And>c D. c \<in> set cs \<Longrightarrow> fn c D = Inr D \<or> (\<not> R c \<and> fn c D = Inl SendBlocks)) \<Longrightarrow>
   Walk fn cs D = Inr D \<or> ((\<exists>c\<in>set cs. \<not> R c) \<and> Walk fn cs D = Inl SendBlocks)"
proof (induction cs)
  case Nil
  show ?case by simp
next
  case (Cons c cs)
  have here: "fn c D = Inr D \<or> (\<not> R c \<and> fn c D = Inl SendBlocks)"
    by (rule Cons.prems) simp
  have rest: "Walk fn cs D = Inr D \<or> ((\<exists>c\<in>set cs. \<not> R c) \<and> Walk fn cs D = Inl SendBlocks)"
    by (rule Cons.IH) (rule Cons.prems, simp)
  from here show ?case
  proof
    assume "fn c D = Inr D"
    then show ?thesis using rest by auto
  next
    assume "\<not> R c \<and> fn c D = Inl SendBlocks"
    then show ?thesis by simp
  qed
qed

lemma Walk_indices_paths:
  "Walk (walkIndicesFn env lru (now env + 10 * Minute)) cs D = Inr D' \<Longrightarrow> D' \<subseteq> D \<union> path ` set cs"
proof (induction cs arbitrary: D)
  case Nil
  then show ?case by simp
next
  case (Cons c cs)
  let ?fn = "walkIndicesFn env lru (now env + 10 * Minute)"
  from Cons.prems obtain D1 where s: "?fn c D = Inr D1" "Walk ?fn cs D1 = Inr D'"
    by (auto split: sum.splits)
  have "D' \<subseteq> D1 \<union> path ` set cs" using s(2) by (rule Cons.IH)
  moreover have "D1 \<subseteq> insert (path c) D"
  proof (cases "loaded_index env c")
    case None
    then have "D1 = D" using walkIndicesFn_loaded[OF s(1)] by simp
    then show ?thesis by blast
  next
    case (Some index)
    then have "D1 = referentialCheck lru (path c) index (integrityWorker env (path c) index D)"
      using walkIndicesFn_loaded[OF s(1)] by simp
    then show ?thesis
      unfolding referentialCheck_eq[of lru "path c" index]
        integrityWorker_eq[of env "path c" index D]
      by (auto split: if_splits)
  qed
  ultimately show ?case by auto
qed

section \<open>Claims about the classifier\<close>

text \<open>
  Claim C2.  For every sequence of chunks offered through \<^verbatim>\<open>Add\<close> to a new classifier
  with budget \<open>m\<close>, here \<open>stats\<close> and then \<open>s\<close>: no call panics; \<^verbatim>\<open>live\<close> is in
  descending order of mtime before and after the last call; the last call puts \<open>s\<close>
  before the first strictly older chunk and then moves the last \<open>k\<close> chunks of \<^verbatim>\<open>live\<close>
  to \<^verbatim>\<open>dead\<close>, where before each of these \<open>k\<close> evictions the size of \<^verbatim>\<open>live\<close> was
  strictly above the budget, and after them \<^verbatim>\<open>liveSize\<close> is the size of \<^verbatim>\<open>live\<close> and at
  most the budget; and when the sizes of the offered chunks, read as unsigned 64-bit
  numbers, add up to the budget exactly, no chunk is evicted at all.
\<close>

theorem Add_keeps_order_and_evicts_over_budget:
  "\<exists>l0 l1 k. offer_all (NewLRU m) (map OfferAdd stats) = Inr l0
     \<and> Add l0 s = Inr l1
     \<and> offer_all (NewLRU m) (map OfferAdd (stats @ [s])) = Inr l1
     \<and> mtime_desc (live l0) \<and> mtime_desc (live l1)
     \<and> k \<le> length (live l0) + 1
     \<and> live l1 = take (length (live l0) + 1 - k) (place s (live l0))
     \<and> dead l1 = dead l0 \<union> cid ` set (drop (length (live l0) + 1 - k) (place s (live l0)))
     \<and> liveSize l1 = sum_size (live l1)
     \<and> liveSize l1 \<le> m
     \<and> (\<forall>j<k. m < sum_size (take (length (live l0) + 1 - j) (place s (live l0))))
     \<and> (total_size (stats @ [s]) = unat m \<longrightarrow> dead l1 = {} \<and> mset (live l1) = mset (stats @ [s]))"
proof -
  from offer_all_inv[OF lru_inv_NewLRU, of m "map OfferAdd stats"]
  obtain l0 where a: "offer_all (NewLRU m) (map OfferAdd stats) = Inr l0" "lru_inv l0"
      "liveSizeMax l0 = liveSizeMax (NewLRU m)"
    by (elim exE conjE) (rule that)
  have m0: "liveSizeMax l0 = m" using a(3) by (simp add: NewLRU_def)
  from Add_spec[OF a(2), of s] obtain k l1 where b:
    "Add l0 s = Inr l1" "k \<le> length (live l0) + 1"
    "live l1 = take (length (live l0) + 1 - k) (place s (live l0))"
    "dead l1 = dead l0 \<union> cid ` set (drop (length (live l0) + 1 - k) (place s (live l0)))"
    "liveSizeMax l1 = liveSizeMax l0" "lru_inv l1" "liveSize l1 \<le> liveSizeMax l1"
    "deadSize l1 = deadSize l0 + sum_size (drop (length (live l0) + 1 - k) (place s (live l0)))"
    "\<forall>j<k. liveSizeMax l0 < sum_size (take (length (live l0) + 1 - j) (place s (live l0)))"
    by (elim exE conjE) (rule that)
  have c: "offer_all (NewLRU m) (map OfferAdd (stats @ [s])) = Inr l1"
    using a(1) b(1) by (simp add: offer_all_append)
  have fit: "dead l1 = {} \<and> mset (live l1) = mset (stats @ [s])"
    if t: "total_size (stats @ [s]) = unat m"
  proof -
    have "unat (liveSize (NewLRU m)) + total_size (stats @ [s]) \<le> unat (liveSizeMax (NewLRU m))"
      using t by (simp add: NewLRU_def)
    from offer_all_Add_fits[OF lru_inv_NewLRU this] obtain l' where
      "offer_all (NewLRU m) (map OfferAdd (stats @ [s])) = Inr l'" "dead l' = dead (NewLRU m)"
      "mset (live l') = mset (live (NewLRU m)) + mset (stats @ [s])"
      by (elim exE conjE) (rule that)
    then show ?thesis using c by (simp add: NewLRU_def)
  qed
  have d: "mtime_desc (live l0)" "mtime_desc (live l1)" "liveSize l1 = sum_size (live l1)"
    using a(2) b(6) by (simp_all add: lru_inv_def)
  have e: "liveSize l1 \<le> m" using b(7) b(5) m0 by simp
  have f: "\<forall>j<k. m < sum_size (take (length (live l0) + 1 - j) (place s (live l0)))"
    using b(9) unfolding m0 .
  show ?thesis
    apply (rule exI[of _ l0], rule exI[of _ l1], rule exI[of _ k])
    apply (intro conjI)
               apply (rule a(1))
              apply (rule b(1))
             apply (rule c)
            apply (rule d(1))
           apply (rule d(2))
          apply (rule b(2))
         apply (rule b(3))
        apply (rule b(4))
       apply (rule d(3))
      apply (rule e)
     apply (rule f)
    apply (rule impI, erule fit)
    done
qed

theorem Add_keeps_order_and_evicts_over_budget_witness:
  "total_size ([\<lparr>cid = 1, csize = 10, mtime = 1\<rparr>, \<lparr>cid = 2, csize = 10, mtime = 3\<rparr>]
       @ [\<lparr>cid = 3, csize = 10, mtime = 2\<rparr>]) = unat (30 :: 64 word)
   \<and> (\<exists>l0 l1.
        offer_all (NewLRU 30)
          (map OfferAdd [\<lparr>cid = 1, csize = 10, mtime = 1\<rparr>, \<lparr>cid = 2, csize = 10, mtime = 3\<rparr>]) = Inr l0
      \<and> Add l0 \<lparr>cid = 3, csize = 10, mtime = 2\<rparr> = Inr l1
      \<and> mtime_desc (live l1) \<and> liveSize l1 \<le> 30 \<and> dead l1 = {}
      \<and> mset (live l1) = mset ([\<lparr>cid = 1, csize = 10, mtime = 1\<rparr>, \<lparr>cid = 2, csize = 10, mtime = 3\<rparr>]
           @ [\<lparr>cid = 3, csize = 10, mtime = 2\<rparr>]))"
proof -
  have t: "total_size ([\<lparr>cid = 1, csize = 10, mtime = 1\<rparr>, \<lparr>cid = 2, csize = 10, mtime = 3\<rparr>]
       @ [\<lparr>cid = 3, csize = 10, mtime = 2\<rparr>]) = unat (30 :: 64 word)"
    by (simp add: total_size_def)
  from Add_keeps_order_and_evicts_over_budget[of 30
      "[\<lparr>cid = 1, csize = 10, mtime = 1\<rparr>, \<lparr>cid = 2, csize = 10, mtime = 3\<rparr>]"
      "\<lparr>cid = 3, csize = 10, mtime = 2\<rparr>"] t
  show ?thesis by blast
qed

text \<open>
  Claim C3, amended.  When no \<^verbatim>\<open>ChunkID\<close> is offered twice, a sequence of calls of
  \<^verbatim>\<open>Add\<close> and \<^verbatim>\<open>AddDead\<close> on a new classifier does not panic, leaves \<^verbatim>\<open>liveSize\<close> at
  most \<^verbatim>\<open>liveSizeMax\<close>, and leaves every offered \<^verbatim>\<open>ChunkID\<close> in exactly one of \<^verbatim>\<open>live\<close>
  and \<^verbatim>\<open>dead\<close>: the two are disjoint and together hold the offered ids.
\<close>

theorem offered_ids_partition:
  assumes "distinct (map (\<lambda>x. cid (offer_stat x)) offs)"
  shows "\<exists>l. offer_all (NewLRU m) offs = Inr l
     \<and> liveSizeMax l = m \<and> liveSize l \<le> liveSizeMax l
     \<and> live_ids l \<union> dead l = cid ` offer_stat ` set offs
     \<and> live_ids l \<inter> dead l = {}
     \<and> (\<forall>x\<in>set offs. in_exactly_one l (cid (offer_stat x)))"
proof -
  have n: "distinct (map cid (live (NewLRU m)))" "live_ids (NewLRU m) \<inter> dead (NewLRU m) = {}"
      "cid ` offer_stat ` set offs \<inter> (live_ids (NewLRU m) \<union> dead (NewLRU m)) = {}"
      "liveSize (NewLRU m) \<le> liveSizeMax (NewLRU m)"
      "live_ids (NewLRU m) \<union> dead (NewLRU m) = {}"
    by (simp_all add: NewLRU_def live_ids_def)
  from offer_all_inv[OF lru_inv_NewLRU, of m offs] obtain l where r:
    "offer_all (NewLRU m) offs = Inr l" "liveSizeMax l = liveSizeMax (NewLRU m)"
    "liveSize (NewLRU m) \<le> liveSizeMax (NewLRU m) \<longrightarrow> liveSize l \<le> liveSizeMax l"
    "live_ids l \<union> dead l = live_ids (NewLRU m) \<union> dead (NewLRU m) \<union> cid ` offer_stat ` set offs"
    "distinct (map cid (live (NewLRU m))) \<and> live_ids (NewLRU m) \<inter> dead (NewLRU m) = {}
          \<and> distinct (map (\<lambda>x. cid (offer_stat x)) offs)
          \<and> cid ` offer_stat ` set offs \<inter> (live_ids (NewLRU m) \<union> dead (NewLRU m)) = {}
         \<longrightarrow> distinct (map cid (live l)) \<and> live_ids l \<inter> dead l = {}"
    by (elim exE conjE) (rule that)
  have u: "live_ids l \<union> dead l = cid ` offer_stat ` set offs" using r(4) unfolding n(5) by simp
  have d: "live_ids l \<inter> dead l = {}" using r(5) n(1,2,3) assms by blast
  have x: "\<forall>x\<in>set offs. in_exactly_one l (cid (offer_stat x))"
  proof
    fix x assume "x \<in> set offs"
    then have "cid (offer_stat x) \<in> live_ids l \<union> dead l" unfolding u by simp
    then show "in_exactly_one l (cid (offer_stat x))"
      using d unfolding in_exactly_one_def by blast
  qed
  have "liveSizeMax l = m" using r(2) by (simp add: NewLRU_def)
  moreover have "liveSize l \<le> liveSizeMax l" using r(3) n(4) by simp
  ultimately show ?thesis using r(1) u d x by blast
qed

theorem offered_ids_partition_witness:
  "distinct (map (\<lambda>x. cid (offer_stat x))
      [OfferAdd \<lparr>cid = 1, csize = 5, mtime = 1\<rparr>, OfferDead \<lparr>cid = 2, csize = 7, mtime = 5\<rparr>,
       OfferAdd \<lparr>cid = 3, csize = 5, mtime = 2\<rparr>])
   \<and> (\<exists>l. offer_all (NewLRU 5)
        [OfferAdd \<lparr>cid = 1, csize = 5, mtime = 1\<rparr>, OfferDead \<lparr>cid = 2, csize = 7, mtime = 5\<rparr>,
         OfferAdd \<lparr>cid = 3, csize = 5, mtime = 2\<rparr>] = Inr l
      \<and> liveSize l \<le> liveSizeMax l
      \<and> live_ids l \<union> dead l = {1, 2, 3} \<and> live_ids l \<inter> dead l = {}
      \<and> in_exactly_one l 1 \<and> in_exactly_one l 2 \<and> in_exactly_one l 3)"
proof -
  have d: "distinct (map (\<lambda>x. cid (offer_stat x))
      [OfferAdd \<lparr>cid = 1, csize = 5, mtime = 1\<rparr>, OfferDead \<lparr>cid = 2, csize = 7, mtime = 5\<rparr>,
       OfferAdd \<lparr>cid = 3, csize = 5, mtime = 2\<rparr>])"
    by simp
  from offered_ids_partition[OF d, of 5] d show ?thesis by auto
qed

text \<open>
  Claim C3 as it is stated fails when one \<^verbatim>\<open>ChunkID\<close> is offered twice (two files of
  the same name in two directories of the store): with a budget of 5 bytes, the older
  of two chunks of 5 bytes with the id 1 is evicted, and the id 1 is in \<^verbatim>\<open>live\<close> and in
  \<^verbatim>\<open>dead\<close>.
\<close>

theorem duplicate_id_in_live_and_dead:
  "offer_all (NewLRU 5)
     [OfferAdd \<lparr>cid = 1, csize = 5, mtime = 1\<rparr>, OfferAdd \<lparr>cid = 1, csize = 5, mtime = 2\<rparr>]
   = Inr \<lparr>live = [\<lparr>cid = 1, csize = 5, mtime = 2\<rparr>], liveSize = 5, liveSizeMax = 5,
          dead = {1}, deadSize = 5\<rparr>
   \<and> \<not> in_exactly_one
        \<lparr>live = [\<lparr>cid = 1, csize = 5, mtime = 2\<rparr>], liveSize = 5, liveSizeMax = 5,
         dead = {1}, deadSize = 5\<rparr> 1"
  by (simp add: Add_def Search_def Search_loop.simps insertAt_def evict.simps NewLRU_def Let_def
      in_exactly_one_def live_ids_def)

text \<open>
  A pass in which the workers have left before the first check is sent never returns:
  the send for \<^verbatim>\<open>/idx/a.nar\<close> blocks.
\<close>

lemma pass_blocks_when_no_worker_receives:
  "gcOnce (example_env
     \<lparr>indices_walk := [regular_file ''/idx/a.nar'' ''a.nar'' 0 0],
      worker_receives := (\<lambda>p. False)\<rparr>) = NeverReturns"
  by code_simp

section \<open>Claims about the walks\<close>

text \<open>
  Claim C5 says that a not-found error of the chunk walk is ignored.  The code compares
  the error with the sentinel \<^verbatim>\<open>os.ErrNotExist\<close>, and the error that \<^verbatim>\<open>filepath.Walk\<close>
  passes for an entry that has vanished is the \<^verbatim>\<open>*fs.PathError\<close> of \<^verbatim>\<open>os.Lstat\<close> with
  \<^verbatim>\<open>ENOENT\<close>: the callback returns it, the walk stops and the pass ends with
  "While walking store".
\<close>

theorem chunk_walk_aborts_on_vanished_entry:
  "walkStoreFn env \<lparr>path = p, info = None, err = Some (PathError ''lstat'' p ENOENT)\<rparr> lru
     = Inl (PathError ''lstat'' p ENOENT)
   \<and> Walk (walkStoreFn env)
       (\<lparr>path = p, info = None, err = Some (PathError ''lstat'' p ENOENT)\<rparr> # rest) lru
     = Inl (PathError ''lstat'' p ENOENT)
   \<and> gcOnce (env\<lparr>store_walk :=
        \<lparr>path = p, info = None, err = Some (PathError ''lstat'' p ENOENT)\<rparr> # rest\<rparr>)
     = WalkStoreFailed (PathError ''lstat'' p ENOENT)"
  by (simp add: walkStoreFn_def gcOnce_def walkStoreFn_store_walk_update)

text \<open>
  Claim C4 says that a file of unknown kind that is newer than ten minutes is skipped.
  The code computes \<^verbatim>\<open>ignoreBeforeTime\<close> as \<^verbatim>\<open>time.Now().Add(10 * time.Minute)\<close>, ten
  minutes after now: a file \<^verbatim>\<open>fresh.bak\<close> that is one minute old is examined.  When
  it loads as an index without chunks it is marked dead and the pass removes it; when
  it does not load, the pass ends with its error.
\<close>

theorem fresh_unknown_file_is_examined:
  "walkIndicesFn (example_env\<lparr>GetIndex := (\<lambda>name. Inr \<lparr>Chunks = []\<rparr>)\<rparr>) lru
       (now example_env + 10 * Minute)
       (regular_file ''/idx/fresh.bak'' ''fresh.bak'' 0 (now example_env - Minute)) {}
   = Inr {''/idx/fresh.bak''}
   \<and> walkIndicesFn (example_env\<lparr>GetIndex := (\<lambda>name. Inl EOF)\<rparr>) lru
       (now example_env + 10 * Minute)
       (regular_file ''/idx/fresh.bak'' ''fresh.bak'' 0 (now example_env - Minute)) {}
   = Inl (Failed (WithMessage EOF ''while getting index /fresh.bak''))
   \<and> deletions (gcOnce (example_env
        \<lparr>indices_walk :=
           [regular_file ''/idx/fresh.bak'' ''fresh.bak'' 0 (now example_env - Minute)],
         GetIndex := (\<lambda>name. Inr \<lparr>Chunks = []\<rparr>)\<rparr>))
   = [OsRemove ''/idx/fresh.bak'']"
  by code_simp

text \<open>
  Claim C6, amended.  A file of the chunk store whose name begins with \<^verbatim>\<open>.tmp\<close> is
  never classified in the chunk walk: the callback calls neither \<^verbatim>\<open>Add\<close> nor \<^verbatim>\<open>AddDead\<close>
  for it and leaves the classifier as it was, and the result of the whole pass (the
  classifier, the dead indices and the deletions) is the same as for the store without
  these files.
\<close>

theorem tmp_chunk_files_are_not_classified:
  "(tmp_file c \<longrightarrow> walk_offer env c = None \<and> walkStoreFn env c lru = Inr lru)
   \<and> gcOnce (env\<lparr>store_walk := filter (\<lambda>c. \<not> tmp_file c) (store_walk env)\<rparr>) = gcOnce env"
proof -
  have "walk_offer env c = None \<and> walkStoreFn env c lru = Inr lru" if "tmp_file c"
    using tmp_file_skipped[OF that, of env]
    by (simp add: walk_offer_def walkStoreFn_step[of env c lru])
  then show ?thesis using gcOnce_without_tmp_files by blast
qed

theorem tmp_chunk_files_are_not_classified_witness:
  "tmp_file (regular_file ''/store/0000/.tmp-cacnk4711'' ''.tmp-cacnk4711'' 9 5)
   \<and> walk_offer example_env (regular_file ''/store/0000/.tmp-cacnk4711'' ''.tmp-cacnk4711'' 9 5) = None
   \<and> walkStoreFn example_env (regular_file ''/store/0000/.tmp-cacnk4711'' ''.tmp-cacnk4711'' 9 5)
        (NewLRU 5) = Inr (NewLRU 5)"
proof -
  have t: "tmp_file (regular_file ''/store/0000/.tmp-cacnk4711'' ''.tmp-cacnk4711'' 9 5)"
    by code_simp
  from tmp_chunk_files_are_not_classified[of
      "regular_file ''/store/0000/.tmp-cacnk4711'' ''.tmp-cacnk4711'' 9 5" example_env "NewLRU 5"] t
  show ?thesis by blast
qed

text \<open>
  Claim C6 as it is stated fails in the index walk, which does not look at the prefix
  of a name: the file \<^verbatim>\<open>.tmp-upload.nar\<close> below the index root, when it loads as an
  index without chunks, is marked dead and passed to \<^verbatim>\<open>os.Remove\<close>.
\<close>

theorem tmp_index_file_is_removed:
  "HasPrefix ''.tmp-upload.nar'' ''.tmp''
   \<and> deletions (gcOnce (example_env
        \<lparr>indices_walk := [regular_file ''/idx/.tmp-upload.nar'' ''.tmp-upload.nar'' 0 0],
         GetIndex := (\<lambda>name. Inr \<lparr>Chunks = []\<rparr>)\<rparr>))
     = [OsRemove ''/idx/.tmp-upload.nar'']"
  by code_simp

text \<open>
  Claim C7.  When the chunk walk returns an error, or the chunk walk succeeds and the
  index walk returns an error, the pass does not complete and makes no call of
  \<^verbatim>\<open>os.Remove\<close> or \<^verbatim>\<open>RemoveChunk\<close>.  The same holds when the index walk stops because
  a send blocks.
\<close>

theorem aborted_pass_deletes_nothing:
  assumes "(\<exists>e. Walk (walkStoreFn env) (store_walk env) (NewLRU (maxCacheSize env)) = Inl e)
     \<or> (\<exists>lru e. Walk (walkStoreFn env) (store_walk env) (NewLRU (maxCacheSize env)) = Inr lru
          \<and> Walk (walkIndicesFn env lru (now env + 10 * Minute)) (indices_walk env) {} = Inl e)"
  shows "deletions (gcOnce env) = [] \<and> (\<forall>lru deadIndices ops. gcOnce env \<noteq> Completed lru deadIndices ops)"
  using assms by (auto simp: gcOnce_def Let_def split: walk_stop.splits)

theorem aborted_pass_deletes_nothing_witness:
  "Walk (walkStoreFn (example_env
       \<lparr>store_walk :=
          [regular_file (''/store/0000/'' @ replicate 63 CHR ''0'' @ ''7.cacnk'')
             (replicate 63 CHR ''0'' @ ''7.cacnk'') 100 5],
        GetChunk := (\<lambda>i. Some (ErrorString ''chunk invalid'')),
        indices_walk := [regular_file ''/idx/b.narinfo'' ''b.narinfo'' 0 0,
                         regular_file ''/idx/c.nar'' ''c.nar'' 0 0],
        GetIndex := (\<lambda>name. if name = ''/b.narinfo'' then Inr \<lparr>Chunks = []\<rparr>
                              else Inl (ErrorString ''invalid index''))\<rparr>))
     (store_walk (example_env
       \<lparr>store_walk :=
          [regular_file (''/store/0000/'' @ replicate 63 CHR ''0'' @ ''7.cacnk'')
             (replicate 63 CHR ''0'' @ ''7.cacnk'') 100 5],
        GetChunk := (\<lambda>i. Some (ErrorString ''chunk invalid'')),
        indices_walk := [regular_file ''/idx/b.narinfo'' ''b.narinfo'' 0 0,
                         regular_file ''/idx/c.nar'' ''c.nar'' 0 0],
        GetIndex := (\<lambda>name. if name = ''/b.narinfo'' then Inr \<lparr>Chunks = []\<rparr>
                              else Inl (ErrorString ''invalid index''))\<rparr>))
     (NewLRU 805310464)
   = Inr \<lparr>live = [], liveSize = 0, liveSizeMax = 805310464, dead = {7}, deadSize = 100\<rparr>
   \<and> Walk (walkIndicesFn (example_env
       \<lparr>store_walk :=
          [regular_file (''/store/0000/'' @ replicate 63 CHR ''0'' @ ''7.cacnk'')
             (replicate 63 CHR ''0'' @ ''7.cacnk'') 100 5],
        GetChunk := (\<lambda>i. Some (ErrorString ''chunk invalid'')),
        indices_walk := [regular_file ''/idx/b.narinfo'' ''b.narinfo'' 0 0,
                         regular_file ''/idx/c.nar'' ''c.nar'' 0 0],
        GetIndex := (\<lambda>name. if name = ''/b.narinfo'' then Inr \<lparr>Chunks = []\<rparr>
                              else Inl (ErrorString ''invalid index''))\<rparr>)
        \<lparr>live = [], liveSize = 0, liveSizeMax = 805310464, dead = {7}, deadSize = 100\<rparr>
        (1010 * Minute))
     [regular_file ''/idx/b.narinfo'' ''b.narinfo'' 0 0, regular_file ''/idx/c.nar'' ''c.nar'' 0 0] {}
   = Inl (Failed (WithMessage (ErrorString ''invalid index'') ''while getting index /c.nar''))
   \<and> deletions (gcOnce (example_env
       \<lparr>store_walk :=
          [regular_file (''/store/0000/'' @ replicate 63 CHR ''0'' @ ''7.cacnk'')
             (replicate 63 CHR ''0'' @ ''7.cacnk'') 100 5],
        GetChunk := (\<lambda>i. Some (ErrorString ''chunk invalid'')),
        indices_walk := [regular_file ''/idx/b.narinfo'' ''b.narinfo'' 0 0,
                         regular_file ''/idx/c.nar'' ''c.nar'' 0 0],
        GetIndex := (\<lambda>name. if name = ''/b.narinfo'' then Inr \<lparr>Chunks = []\<rparr>
                              else Inl (ErrorString ''invalid index''))\<rparr>)) = []"
proof -
  let ?env = "example_env
       \<lparr>store_walk :=
          [regular_file (''/store/0000/'' @ replicate 63 CHR ''0'' @ ''7.cacnk'')
             (replicate 63 CHR ''0'' @ ''7.cacnk'') 100 5],
        GetChunk := (\<lambda>i. Some (ErrorString ''chunk invalid'')),
        indices_walk := [regular_file ''/idx/b.narinfo'' ''b.narinfo'' 0 0,
                         regular_file ''/idx/c.nar'' ''c.nar'' 0 0],
        GetIndex := (\<lambda>name. if name = ''/b.narinfo'' then Inr \<lparr>Chunks = []\<rparr>
                              else Inl (ErrorString ''invalid index''))\<rparr>"
  let ?lru = "\<lparr>live = [], liveSize = 0, liveSizeMax = 805310464, dead = {7}, deadSize = 100\<rparr>"
  have m: "maxCacheSize ?env = 805310464" by code_simp
  have t: "now ?env + 10 * Minute = 1010 * Minute" by code_simp
  have i: "indices_walk ?env =
      [regular_file ''/idx/b.narinfo'' ''b.narinfo'' 0 0, regular_file ''/idx/c.nar'' ''c.nar'' 0 0]"
    by simp
  have w1: "Walk (walkStoreFn ?env) (store_walk ?env) (NewLRU 805310464) = Inr ?lru"
    by code_simp
  have w2: "Walk (walkIndicesFn ?env ?lru (1010 * Minute))
      [regular_file ''/idx/b.narinfo'' ''b.narinfo'' 0 0, regular_file ''/idx/c.nar'' ''c.nar'' 0 0] {}
      = Inl (Failed (WithMessage (ErrorString ''invalid index'') ''while getting index /c.nar''))"
    by code_simp
  have "\<exists>lru e. Walk (walkStoreFn ?env) (store_walk ?env) (NewLRU (maxCacheSize ?env)) = Inr lru
      \<and> Walk (walkIndicesFn ?env lru (now ?env + 10 * Minute)) (indices_walk ?env) {} = Inl e"
    unfolding m t i using w1 w2 by blast
  then have "deletions (gcOnce ?env) = []"
    using aborted_pass_deletes_nothing[of ?env] by blast
  then show ?thesis using w1 w2 by blast
qed

text \<open>
  Claim C8.  The deletions of a completed pass are the calls of \<^verbatim>\<open>os.Remove\<close> for the
  dead indices followed by the calls of \<^verbatim>\<open>RemoveChunk\<close> for the dead chunks: every
  \<^verbatim>\<open>os.Remove\<close> comes before every \<^verbatim>\<open>RemoveChunk\<close>.
\<close>

theorem indices_are_removed_before_chunks:
  assumes "gcOnce env = Completed lru deadIndices ops"
  shows "ops = map OsRemove (range_order env deadIndices) @ map RemoveChunk (dead_order env (Dead lru))
     \<and> (\<forall>i j p c. i < length ops \<and> j < length ops \<and> ops ! i = OsRemove p \<and> ops ! j = RemoveChunk c
          \<longrightarrow> i < j)"
proof -
  let ?a = "map OsRemove (range_order env deadIndices)"
  let ?b = "map RemoveChunk (dead_order env (Dead lru))"
  have o: "ops = ?a @ ?b"
    using assms by (auto simp: gcOnce_def Let_def split: sum.splits walk_stop.splits)
  have "i < j" if h: "i < length ops" "j < length ops" "ops ! i = OsRemove p" "ops ! j = RemoveChunk c"
    for i j p c
  proof (rule ccontr)
    assume "\<not> i < j"
    then have ji: "j \<le> i" by simp
    have "j \<ge> length ?a"
    proof (rule ccontr)
      assume "\<not> length ?a \<le> j"
      then have "ops ! j = ?a ! j" "j < length (range_order env deadIndices)"
        unfolding o by (simp_all add: nth_append)
      then show False using h(4) by simp
    qed
    then have ia: "i \<ge> length ?a" using ji by simp
    then have "ops ! i = ?b ! (i - length ?a)" "i - length ?a < length (dead_order env (Dead lru))"
      using h(1) unfolding o by (simp_all add: nth_append)
    then show False using h(3) by simp
  qed
  then show ?thesis using o by blast
qed

theorem indices_are_removed_before_chunks_witness:
  "gcOnce (example_env
     \<lparr>store_walk :=
        [regular_file (''/store/0000/'' @ replicate 63 CHR ''0'' @ ''7.cacnk'')
           (replicate 63 CHR ''0'' @ ''7.cacnk'') 100 5],
      GetChunk := (\<lambda>i. Some (ErrorString ''chunk invalid'')),
      indices_walk := [regular_file ''/idx/a.nar'' ''a.nar'' 0 0]\<rparr>)
   = Completed \<lparr>live = [], liveSize = 0, liveSizeMax = 805310464, dead = {7}, deadSize = 100\<rparr>
       {''/idx/a.nar''} [OsRemove ''/idx/a.nar'', RemoveChunk 7]
   \<and> ((0::nat) < 2 \<and> (1::nat) < 2
        \<and> [OsRemove ''/idx/a.nar'', RemoveChunk 7] ! 0 = OsRemove ''/idx/a.nar''
        \<and> [OsRemove ''/idx/a.nar'', RemoveChunk 7] ! 1 = RemoveChunk 7)
   \<and> (0::nat) < 1"
proof -
  let ?env = "example_env
     \<lparr>store_walk :=
        [regular_file (''/store/0000/'' @ replicate 63 CHR ''0'' @ ''7.cacnk'')
           (replicate 63 CHR ''0'' @ ''7.cacnk'') 100 5],
      GetChunk := (\<lambda>i. Some (ErrorString ''chunk invalid'')),
      indices_walk := [regular_file ''/idx/a.nar'' ''a.nar'' 0 0]\<rparr>"
  have g: "gcOnce ?env
   = Completed \<lparr>live = [], liveSize = 0, liveSizeMax = 805310464, dead = {7}, deadSize = 100\<rparr>
       {''/idx/a.nar''} [OsRemove ''/idx/a.nar'', RemoveChunk 7]"
    by code_simp
  from indices_are_removed_before_chunks[OF g]
  have "\<forall>i j p c. i < length [OsRemove ''/idx/a.nar'', RemoveChunk 7]
      \<and> j < length [OsRemove ''/idx/a.nar'', RemoveChunk 7]
      \<and> [OsRemove ''/idx/a.nar'', RemoveChunk 7] ! i = OsRemove p
      \<and> [OsRemove ''/idx/a.nar'', RemoveChunk 7] ! j = RemoveChunk c \<longrightarrow> i < j"
    by blast
  then show ?thesis using g by simp
qed

text \<open>
  Claim C10.  After the chunk walk, \<^verbatim>\<open>IsDead\<close> is false for every \<^verbatim>\<open>ChunkID\<close> that has
  no chunk file among the calls of the walk, and the referential check of the index
  walk leaves the set of dead indices as it is for an index with at least one chunk
  all of whose chunks are absent from the chunk store.
\<close>

theorem absent_chunk_is_not_dead:
  assumes "Walk (walkStoreFn env) cs (NewLRU m) = Inr lru"
  shows "(i \<notin> store_ids env cs \<longrightarrow> \<not> IsDead lru i)
     \<and> (Chunks index \<noteq> [] \<and> (\<forall>ch\<in>set (Chunks index). ID ch \<notin> store_ids env cs)
          \<longrightarrow> referentialCheck lru p index deadIndices = deadIndices)"
proof -
  have sub: "dead lru \<subseteq> store_ids env cs" using assms by (rule Walk_store_dead_subset)
  have a: "\<not> IsDead lru i" if "i \<notin> store_ids env cs"
    using that sub by (auto simp: IsDead_def)
  have b: "referentialCheck lru p index deadIndices = deadIndices"
    if "Chunks index \<noteq> []" "\<forall>ch\<in>set (Chunks index). ID ch \<notin> store_ids env cs"
  proof -
    have "\<not> someChunkDead lru (Chunks index)"
      unfolding someChunkDead_iff using that(2) sub by blast
    then show ?thesis using that(1) by (simp add: referentialCheck_def)
  qed
  show ?thesis using a b by blast
qed

theorem absent_chunk_is_not_dead_witness:
  "Walk (walkStoreFn (example_env\<lparr>GetChunk := (\<lambda>i. Some (ErrorString ''chunk invalid''))\<rparr>))
     [regular_file (''/store/0000/'' @ replicate 63 CHR ''0'' @ ''7.cacnk'')
        (replicate 63 CHR ''0'' @ ''7.cacnk'') 100 5]
     (NewLRU 50)
   = Inr \<lparr>live = [], liveSize = 0, liveSizeMax = 50, dead = {7}, deadSize = 100\<rparr>
   \<and> 8 \<notin> store_ids (example_env\<lparr>GetChunk := (\<lambda>i. Some (ErrorString ''chunk invalid''))\<rparr>)
        [regular_file (''/store/0000/'' @ replicate 63 CHR ''0'' @ ''7.cacnk'')
          (replicate 63 CHR ''0'' @ ''7.cacnk'') 100 5]
   \<and> \<not> IsDead \<lparr>live = [], liveSize = 0, liveSizeMax = 50, dead = {7}, deadSize = 100\<rparr> 8
   \<and> referentialCheck \<lparr>live = [], liveSize = 0, liveSizeMax = 50, dead = {7}, deadSize = 100\<rparr>
        ''/idx/a.nar'' \<lparr>Chunks = [\<lparr>ID = 8, Start = 0, Length = 1\<rparr>]\<rparr> {} = {}"
proof -
  let ?env = "example_env\<lparr>GetChunk := (\<lambda>i. Some (ErrorString ''chunk invalid''))\<rparr>"
  let ?cs = "[regular_file (''/store/0000/'' @ replicate 63 CHR ''0'' @ ''7.cacnk'')
        (replicate 63 CHR ''0'' @ ''7.cacnk'') 100 5]"
  let ?lru = "\<lparr>live = [], liveSize = 0, liveSizeMax = 50, dead = {7}, deadSize = 100\<rparr>"
  have w: "Walk (walkStoreFn ?env) ?cs (NewLRU 50) = Inr ?lru" by code_simp
  have n: "8 \<notin> store_ids ?env ?cs" by code_simp
  have c: "Chunks \<lparr>Chunks = [\<lparr>ID = 8, Start = 0, Length = 1\<rparr>]\<rparr> \<noteq> []
     \<and> (\<forall>ch\<in>set (Chunks \<lparr>Chunks = [\<lparr>ID = 8, Start = 0, Length = 1\<rparr>]\<rparr>). ID ch \<notin> store_ids ?env ?cs)"
    using n by simp
  from absent_chunk_is_not_dead[OF w, of 8 "\<lparr>Chunks = [\<lparr>ID = 8, Start = 0, Length = 1\<rparr>]\<rparr>" "''/idx/a.nar''" "{}"]
    w n c
  show ?thesis by blast
qed

section \<open>Claims about a completed pass\<close>

text \<open>
  What the referential check of the index walk achieves.  After a completed pass in
  which the two deletion loops visit all keys, every index that the index walk has
  loaded and that the pass has not removed has at least one chunk and references no
  chunk of the dead set of the classifier, that is, no chunk that the pass has removed.
\<close>

theorem surviving_index_has_no_removed_chunk:
  assumes "gcOnce env = Completed lru deadIndices ops"
    and "set (range_order env deadIndices) = deadIndices"
    and "set (dead_order env (Dead lru)) = Dead lru"
    and "c \<in> set (indices_walk env)"
    and "loaded_index env c = Some index"
    and "OsRemove (path c) \<notin> set ops"
  shows "Chunks index \<noteq> []
     \<and> (\<forall>ch\<in>set (Chunks index). \<not> IsDead lru (ID ch) \<and> RemoveChunk (ID ch) \<notin> set ops)"
proof -
  have w: "Walk (walkIndicesFn env lru (now env + 10 * Minute)) (indices_walk env) {} = Inr deadIndices"
    and o: "ops = map OsRemove (range_order env deadIndices) @ map RemoveChunk (dead_order env (Dead lru))"
    using assms(1) by (auto simp: gcOnce_def Let_def split: sum.splits walk_stop.splits)
  have a: "set ops = OsRemove ` deadIndices \<union> RemoveChunk ` dead lru"
    unfolding o using assms(2,3) by (simp add: Dead_def)
  have n: "path c \<notin> deadIndices" using assms(6) unfolding a by blast
  from Walk_indices_inv[OF w] assms(4,5) n
  have "Chunks index \<noteq> [] \<and> (\<forall>ch\<in>set (Chunks index). ID ch \<notin> dead lru)" by blast
  then show ?thesis unfolding a by (auto simp: IsDead_def)
qed

theorem surviving_index_has_no_removed_chunk_witness:
  "gcOnce (example_env
     \<lparr>store_walk :=
        [regular_file (''/store/0000/'' @ replicate 63 CHR ''0'' @ ''7.cacnk'')
           (replicate 63 CHR ''0'' @ ''7.cacnk'') 100 5,
         regular_file (''/store/0000/'' @ replicate 63 CHR ''0'' @ ''8.cacnk'')
           (replicate 63 CHR ''0'' @ ''8.cacnk'') 900000000 3],
      indices_walk := [regular_file ''/idx/a.nar'' ''a.nar'' 0 0, regular_file ''/idx/b.nar'' ''b.nar'' 0 0],
      GetIndex := (\<lambda>name. if name = ''/a.nar'' then Inr \<lparr>Chunks = [\<lparr>ID = 7, Start = 0, Length = 1\<rparr>]\<rparr>
                            else Inr \<lparr>Chunks = [\<lparr>ID = 8, Start = 0, Length = 1\<rparr>]\<rparr>)\<rparr>)
   = Completed \<lparr>live = [\<lparr>cid = 7, csize = 100, mtime = 5\<rparr>], liveSize = 100, liveSizeMax = 805310464,
                dead = {8}, deadSize = 900000000\<rparr>
       {''/idx/b.nar''} [OsRemove ''/idx/b.nar'', RemoveChunk 8]
   \<and> OsRemove ''/idx/a.nar'' \<notin> set [OsRemove ''/idx/b.nar'', RemoveChunk 8]
   \<and> RemoveChunk 7 \<notin> set [OsRemove ''/idx/b.nar'', RemoveChunk 8]"
proof -
  let ?env = "example_env
     \<lparr>store_walk :=
        [regular_file (''/store/0000/'' @ replicate 63 CHR ''0'' @ ''7.cacnk'')
           (replicate 63 CHR ''0'' @ ''7.cacnk'') 100 5,
         regular_file (''/store/0000/'' @ replicate 63 CHR ''0'' @ ''8.cacnk'')
           (replicate 63 CHR ''0'' @ ''8.cacnk'') 900000000 3],
      indices_walk := [regular_file ''/idx/a.nar'' ''a.nar'' 0 0, regular_file ''/idx/b.nar'' ''b.nar'' 0 0],
      GetIndex := (\<lambda>name. if name = ''/a.nar'' then Inr \<lparr>Chunks = [\<lparr>ID = 7, Start = 0, Length = 1\<rparr>]\<rparr>
                            else Inr \<lparr>Chunks = [\<lparr>ID = 8, Start = 0, Length = 1\<rparr>]\<rparr>)\<rparr>"
  let ?lru = "\<lparr>live = [\<lparr>cid = 7, csize = 100, mtime = 5\<rparr>], liveSize = 100, liveSizeMax = 805310464,
                dead = {8}, deadSize = 900000000\<rparr>"
  let ?c = "regular_file ''/idx/a.nar'' ''a.nar'' 0 0"
  have g: "gcOnce ?env = Completed ?lru {''/idx/b.nar''} [OsRemove ''/idx/b.nar'', RemoveChunk 8]"
    by code_simp
  have r: "set (range_order ?env {''/idx/b.nar''}) = {''/idx/b.nar''}" by code_simp
  have d: "set (dead_order ?env (Dead ?lru)) = Dead ?lru" by code_simp
  have c: "?c \<in> set (indices_walk ?env)" by simp
  have l: "loaded_index ?env ?c = Some \<lparr>Chunks = [\<lparr>ID = 7, Start = 0, Length = 1\<rparr>]\<rparr>" by code_simp
  have p: "OsRemove (path ?c) \<notin> set [OsRemove ''/idx/b.nar'', RemoveChunk 8]"
    by (simp add: regular_file_def)
  from surviving_index_has_no_removed_chunk[OF g r d c l p] g p
  show ?thesis by (simp add: regular_file_def)
qed

text \<open>
  Claim C1 says that no surviving index references a chunk that is absent from disk,
  and the comment above \<^verbatim>\<open>gcOnce\<close> says the same ("Check every index file: If chunks
  are missing, delete it").  The code does not do it.  The chunk store is empty;
  \<^verbatim>\<open>/idx/old.bak\<close> is an old file of unknown kind that loads as an index with the
  chunk 7.  \<^verbatim>\<open>IsDead\<close> is false for the chunk 7, which the chunk walk has never met, the
  workers check \<^verbatim>\<open>.nar\<close> and \<^verbatim>\<open>.narinfo\<close> only, and the pass completes without a
  deletion: the index survives and references a chunk that is not on disk.
\<close>

theorem surviving_index_references_absent_chunk:
  "gcOnce (example_env\<lparr>indices_walk := [regular_file ''/idx/old.bak'' ''old.bak'' 0 0]\<rparr>)
     = Completed (NewLRU 805310464) {} []
   \<and> loaded_index (example_env\<lparr>indices_walk := [regular_file ''/idx/old.bak'' ''old.bak'' 0 0]\<rparr>)
        (regular_file ''/idx/old.bak'' ''old.bak'' 0 0)
     = Some \<lparr>Chunks = [\<lparr>ID = 7, Start = 0, Length = 1\<rparr>]\<rparr>
   \<and> 7 \<notin> store_ids (example_env\<lparr>indices_walk := [regular_file ''/idx/old.bak'' ''old.bak'' 0 0]\<rparr>)
        (store_walk (example_env\<lparr>indices_walk := [regular_file ''/idx/old.bak'' ''old.bak'' 0 0]\<rparr>))"
  by code_simp

text \<open>
  Claim C9, amended.  Let a pass complete on a store in which every \<^verbatim>\<open>ChunkID\<close> has one
  chunk file, the sizes of the chunk files add up to less than \<open>2 ^ 64\<close>, and the index
  walk has loaded every regular file below the index root (its age filter has skipped
  none).  Let the deletion loops visit all keys, all deletions succeed and nothing else
  write to the store.  Then the next pass, at any time \<open>t\<close> and with any timing \<open>r\<close> of
  its workers, deletes nothing; and when a worker receives every check that the next
  pass sends, the next pass returns: it completes with an empty dead set of the
  classifier, an empty set of dead indices and no deletion.
\<close>

theorem second_pass_deletes_nothing:
  assumes g: "gcOnce env = Completed lru deadIndices ops"
    and v: "visits_all_keys env"
    and dist: "distinct (map (\<lambda>x. cid (offer_stat x)) (store_offers env (store_walk env)))"
    and nov: "total_size (map offer_stat (store_offers env (store_walk env))) < 2 ^ 64"
    and ex: "\<forall>c\<in>set (indices_walk env). \<forall>fi. info c = Some fi \<longrightarrow> IsDir fi \<or> loaded_index env c \<noteq> None"
  shows "deletions (gcOnce ((after_pass env ops t)\<lparr>worker_receives := r\<rparr>)) = []
     \<and> ((\<forall>c\<in>set (indices_walk (after_pass env ops t)). r (path c)) \<longrightarrow>
          (\<exists>lru'. gcOnce ((after_pass env ops t)\<lparr>worker_receives := r\<rparr>) = Completed lru' {} []
             \<and> dead lru' = {}))"
proof -
  let ?env' = "after_pass env ops t"
  let ?env2 = "(after_pass env ops t)\<lparr>worker_receives := r\<rparr>"
  have w1: "Walk (walkStoreFn env) (store_walk env) (NewLRU (maxCacheSize env)) = Inr lru"
    and w2: "Walk (walkIndicesFn env lru (now env + 10 * Minute)) (indices_walk env) {} = Inr deadIndices"
    and o: "ops = map OsRemove (range_order env deadIndices) @ map RemoveChunk (dead_order env (Dead lru))"
    using g by (auto simp: gcOnce_def Let_def split: sum.splits walk_stop.splits)
  have "dead lru \<subseteq> store_ids env (store_walk env)" using w1 by (rule Walk_store_dead_subset)
  then have fd: "finite (dead lru)" unfolding store_ids_def by (rule finite_subset) simp
  have "deadIndices \<subseteq> {} \<union> path ` set (indices_walk env)" using w2 by (rule Walk_indices_paths)
  then have fi: "finite deadIndices" by (rule finite_subset) simp
  have va: "\<And>S. finite S \<Longrightarrow> set (range_order env S) = S"
    and vb: "\<And>S. finite S \<Longrightarrow> set (dead_order env S) = S"
    using v unfolding visits_all_keys_def by blast+
  have r1: "set (range_order env deadIndices) = deadIndices" using fi by (rule va)
  have r2: "set (dead_order env (dead lru)) = dead lru" using fd by (rule vb)
  have "set (range_order env {}) = {}" by (rule va) simp
  then have r3: "range_order env {} = []" by simp
  have "set (dead_order env {}) = {}" by (rule vb) simp
  then have r4: "dead_order env {} = []" by simp
  have rem: "\<And>i. (RemoveChunk i \<in> set ops) = (i \<in> dead lru)"
    unfolding o using r2 by (auto simp: Dead_def)
  have remI: "\<And>p. (OsRemove p \<in> set ops) = (p \<in> deadIndices)"
    unfolding o using r1 by auto
  have m: "maxCacheSize ?env2 = maxCacheSize env" by (simp add: maxCacheSize_def after_pass_def)
  have sw2: "store_walk ?env2 = store_walk ?env'" and iw2: "indices_walk ?env2 = indices_walk ?env'"
    and n2: "now ?env2 = now ?env'"
    by simp_all
  from second_store_walk[OF w1 rem dist nov, of t] obtain lru' where s:
    "Walk (walkStoreFn ?env') (store_walk ?env') (NewLRU (maxCacheSize env)) = Inr lru'"
    "dead lru' = {}" by blast
  have s2: "Walk (walkStoreFn ?env2) (store_walk ?env2) (NewLRU (maxCacheSize ?env2)) = Inr lru'"
    unfolding walkStoreFn_worker_update sw2 m by (rule s(1))
  have iw: "indices_walk ?env' = filter (\<lambda>c. OsRemove (path c) \<notin> set ops) (indices_walk env)"
    by (simp add: after_pass_def)
  from Walk_indices_inv[OF w2] have inv:
    "\<forall>c\<in>set (indices_walk env). err c = None \<and> info c \<noteq> None \<and>
      (\<forall>index. loaded_index env c = Some index \<longrightarrow> path c \<notin> deadIndices \<longrightarrow>
         Chunks index \<noteq> [] \<and> (\<forall>ch\<in>set (Chunks index). ID ch \<notin> dead lru)
         \<and> integrityWorker env (path c) index {} = {})" by blast
  let ?fn = "walkIndicesFn ?env2 lru' (now ?env2 + 10 * Minute)"
  have noop: "?fn c D = Inr D \<or> (\<not> r (path c) \<and> ?fn c D = Inl SendBlocks)"
    if c: "c \<in> set (indices_walk ?env')" for c D
  proof -
    have c1: "c \<in> set (indices_walk env)" and c2: "path c \<notin> deadIndices"
      using c unfolding iw remI by simp_all
    from inv c1 have e: "err c = None" and i: "info c \<noteq> None" by blast+
    from i obtain fi where fi: "info c = Some fi" by blast
    show ?thesis
    proof (cases "IsDir fi")
      case True
      then have "IsDir fi \<or> (loaded_index env c = Some \<lparr>Chunks = []\<rparr> \<and> Chunks \<lparr>Chunks = []\<rparr> \<noteq> []
          \<and> integrityWorker env (path c) \<lparr>Chunks = []\<rparr> {} = {})" by (rule disjI1)
      with e fi show ?thesis using s(2) by (rule walkIndicesFn_noop)
    next
      case False
      then have "loaded_index env c \<noteq> None" using ex c1 fi by blast
      then obtain index where l: "loaded_index env c = Some index" by blast
      then have "Chunks index \<noteq> [] \<and> integrityWorker env (path c) index {} = {}"
        using inv c1 c2 by blast
      then have "IsDir fi \<or> (loaded_index env c = Some index \<and> Chunks index \<noteq> []
          \<and> integrityWorker env (path c) index {} = {})" using l by blast
      with e fi show ?thesis using s(2) by (rule walkIndicesFn_noop)
    qed
  qed
  have wi: "Walk ?fn (indices_walk ?env') {} = Inr {}
     \<or> ((\<exists>c\<in>set (indices_walk ?env'). \<not> r (path c))
         \<and> Walk ?fn (indices_walk ?env') {} = Inl SendBlocks)"
    by (rule Walk_noop_or_block) (rule noop)
  have ro: "range_order ?env2 = range_order env" "dead_order ?env2 = dead_order env"
    by (simp_all add: after_pass_def)
  have compl: "gcOnce ?env2 = Completed lru' {} []"
    if "Walk ?fn (indices_walk ?env') {} = Inr {}"
    unfolding gcOnce_def Let_def s2 iw2 using that by (simp add: ro r3 r4 Dead_def s(2))
  have blocked: "gcOnce ?env2 = NeverReturns"
    if "Walk ?fn (indices_walk ?env') {} = Inl SendBlocks"
    unfolding gcOnce_def Let_def s2 iw2 using that by simp
  have a: "deletions (gcOnce ?env2) = []"
    using wi compl blocked by auto
  have b: "\<exists>lru'. gcOnce ?env2 = Completed lru' {} [] \<and> dead lru' = {}"
    if "\<forall>c\<in>set (indices_walk ?env'). r (path c)"
  proof -
    have "Walk ?fn (indices_walk ?env') {} = Inr {}" using wi that by blast
    then have "gcOnce ?env2 = Completed lru' {} []" by (rule compl)
    then show ?thesis using s(2) by blast
  qed
  show ?thesis using a b by blast
qed

theorem second_pass_deletes_nothing_witness:
  "gcOnce (example_env
     \<lparr>store_walk :=
        [regular_file (''/store/0000/'' @ replicate 63 CHR ''0'' @ ''7.cacnk'')
           (replicate 63 CHR ''0'' @ ''7.cacnk'') 100 5,
         regular_file (''/store/0000/'' @ replicate 63 CHR ''0'' @ ''8.cacnk'')
           (replicate 63 CHR ''0'' @ ''8.cacnk'') 900000000 3],
      indices_walk := [regular_file ''/idx/a.nar'' ''a.nar'' 0 0, regular_file ''/idx/b.nar'' ''b.nar'' 0 0],
      GetIndex := (\<lambda>name. if name = ''/a.nar'' then Inr \<lparr>Chunks = [\<lparr>ID = 7, Start = 0, Length = 1\<rparr>]\<rparr>
                            else Inr \<lparr>Chunks = [\<lparr>ID = 8, Start = 0, Length = 1\<rparr>]\<rparr>)\<rparr>)
   = Completed \<lparr>live = [\<lparr>cid = 7, csize = 100, mtime = 5\<rparr>], liveSize = 100, liveSizeMax = 805310464,
                dead = {8}, deadSize = 900000000\<rparr>
       {''/idx/b.nar''} [OsRemove ''/idx/b.nar'', RemoveChunk 8]
   \<and> (\<exists>lru'. gcOnce ((after_pass (example_env
     \<lparr>store_walk :=
        [regular_file (''/store/0000/'' @ replicate 63 CHR ''0'' @ ''7.cacnk'')
           (replicate 63 CHR ''0'' @ ''7.cacnk'') 100 5,
         regular_file (''/store/0000/'' @ replicate 63 CHR ''0'' @ ''8.cacnk'')
           (replicate 63 CHR ''0'' @ ''8.cacnk'') 900000000 3],
      indices_walk := [regular_file ''/idx/a.nar'' ''a.nar'' 0 0, regular_file ''/idx/b.nar'' ''b.nar'' 0 0],
      GetIndex := (\<lambda>name. if name = ''/a.nar'' then Inr \<lparr>Chunks = [\<lparr>ID = 7, Start = 0, Length = 1\<rparr>]\<rparr>
                            else Inr \<lparr>Chunks = [\<lparr>ID = 8, Start = 0, Length = 1\<rparr>]\<rparr>)\<rparr>)
        [OsRemove ''/idx/b.nar'', RemoveChunk 8] (1001 * Minute))\<lparr>worker_receives := (\<lambda>p. True)\<rparr>)
      = Completed lru' {} [] \<and> dead lru' = {})
   \<and> deletions (gcOnce ((after_pass (example_env
     \<lparr>store_walk :=
        [regular_file (''/store/0000/'' @ replicate 63 CHR ''0'' @ ''7.cacnk'')
           (replicate 63 CHR ''0'' @ ''7.cacnk'') 100 5,
         regular_file (''/store/0000/'' @ replicate 63 CHR ''0'' @ ''8.cacnk'')
           (replicate 63 CHR ''0'' @ ''8.cacnk'') 900000000 3],
      indices_walk := [regular_file ''/idx/a.nar'' ''a.nar'' 0 0, regular_file ''/idx/b.nar'' ''b.nar'' 0 0],
      GetIndex := (\<lambda>name. if name = ''/a.nar'' then Inr \<lparr>Chunks = [\<lparr>ID = 7, Start = 0, Length = 1\<rparr>]\<rparr>
                            else Inr \<lparr>Chunks = [\<lparr>ID = 8, Start = 0, Length = 1\<rparr>]\<rparr>)\<rparr>)
        [OsRemove ''/idx/b.nar'', RemoveChunk 8] (1001 * Minute))\<lparr>worker_receives := (\<lambda>p. False)\<rparr>))
      = []"
proof -
  let ?env = "example_env
     \<lparr>store_walk :=
        [regular_file (''/store/0000/'' @ replicate 63 CHR ''0'' @ ''7.cacnk'')
           (replicate 63 CHR ''0'' @ ''7.cacnk'') 100 5,
         regular_file (''/store/0000/'' @ replicate 63 CHR ''0'' @ ''8.cacnk'')
           (replicate 63 CHR ''0'' @ ''8.cacnk'') 900000000 3],
      indices_walk := [regular_file ''/idx/a.nar'' ''a.nar'' 0 0, regular_file ''/idx/b.nar'' ''b.nar'' 0 0],
      GetIndex := (\<lambda>name. if name = ''/a.nar'' then Inr \<lparr>Chunks = [\<lparr>ID = 7, Start = 0, Length = 1\<rparr>]\<rparr>
                            else Inr \<lparr>Chunks = [\<lparr>ID = 8, Start = 0, Length = 1\<rparr>]\<rparr>)\<rparr>"
  let ?lru = "\<lparr>live = [\<lparr>cid = 7, csize = 100, mtime = 5\<rparr>], liveSize = 100, liveSizeMax = 805310464,
                dead = {8}, deadSize = 900000000\<rparr>"
  let ?ops = "[OsRemove ''/idx/b.nar'', RemoveChunk 8]"
  have g: "gcOnce ?env = Completed ?lru {''/idx/b.nar''} ?ops"
    by code_simp
  have v: "visits_all_keys ?env"
    by (simp add: visits_all_keys_def example_env_def)
  have so: "store_offers ?env (store_walk ?env)
      = [OfferAdd \<lparr>cid = 7, csize = 100, mtime = 5\<rparr>, OfferAdd \<lparr>cid = 8, csize = 900000000, mtime = 3\<rparr>]"
    by code_simp
  have d: "distinct (map (\<lambda>x. cid (offer_stat x)) (store_offers ?env (store_walk ?env)))"
    unfolding so by simp
  have n: "total_size (map offer_stat (store_offers ?env (store_walk ?env))) < 2 ^ 64"
    unfolding so by (simp add: total_size_def)
  have la: "loaded_index ?env (regular_file ''/idx/a.nar'' ''a.nar'' 0 0) \<noteq> None"
    by code_simp
  have lb: "loaded_index ?env (regular_file ''/idx/b.nar'' ''b.nar'' 0 0) \<noteq> None"
    by code_simp
  have i: "indices_walk ?env = [regular_file ''/idx/a.nar'' ''a.nar'' 0 0, regular_file ''/idx/b.nar'' ''b.nar'' 0 0]"
    by simp
  have e: "\<forall>c\<in>set (indices_walk ?env). \<forall>fi. info c = Some fi \<longrightarrow> IsDir fi \<or> loaded_index ?env c \<noteq> None"
    unfolding i using la lb by simp
  have r: "\<forall>c\<in>set (indices_walk (after_pass ?env ?ops (1001 * Minute))). (\<lambda>p. True) (path c)"
    by simp
  from second_pass_deletes_nothing[OF g v d n e, where t = "1001 * Minute" and r = "\<lambda>p. True"] r
  have a: "\<exists>lru'. gcOnce ((after_pass ?env ?ops (1001 * Minute))\<lparr>worker_receives := (\<lambda>p. True)\<rparr>)
      = Completed lru' {} [] \<and> dead lru' = {}" by blast
  from second_pass_deletes_nothing[OF g v d n e, where t = "1001 * Minute" and r = "\<lambda>p. False"]
  have b: "deletions (gcOnce ((after_pass ?env ?ops (1001 * Minute))\<lparr>worker_receives := (\<lambda>p. False)\<rparr>)) = []"
    by blast
  show ?thesis using g a b by blast
qed

text \<open>
  Claim C9 as it is stated fails for a file that the age filter of the first pass
  skips.  \<^verbatim>\<open>/idx/late.bak\<close> is of unknown kind, has no chunks and is dated ten minutes
  after the clock of the first pass, which is the value of \<^verbatim>\<open>ignoreBeforeTime\<close>: the
  first pass skips it and deletes nothing.  The second pass, one nanosecond later on
  the unchanged store, examines it, marks it dead and removes it.
\<close>

theorem second_pass_removes_skipped_file:
  "gcOnce (example_env
     \<lparr>indices_walk := [regular_file ''/idx/late.bak'' ''late.bak'' 0 (1010 * Minute)],
      GetIndex := (\<lambda>name. Inr \<lparr>Chunks = []\<rparr>)\<rparr>)
   = Completed (NewLRU 805310464) {} []
   \<and> deletions (gcOnce (after_pass (example_env
        \<lparr>indices_walk := [regular_file ''/idx/late.bak'' ''late.bak'' 0 (1010 * Minute)],
         GetIndex := (\<lambda>name. Inr \<lparr>Chunks = []\<rparr>)\<rparr>) [] (1000 * Minute + 1)))
   = [OsRemove ''/idx/late.bak'']"
  by code_simp

end
